theory Spec2Isabelle
  imports Main "HOL-Library.Multiset"
begin

section \<open>The fixed-capacity arena: \<open>fox::inplace_free_list<T, Capacity>\<close>\<close>

text \<open>
  Conventions of the embedding.
  \<^item> The template parameter \<open>T\<close> is the type variable \<open>'a\<close>; \<open>Capacity\<close> is the length of
    the storage array (a \<open>std::array\<close> of exactly \<open>Capacity\<close> slots).
  \<^item> \<open>offset_type\<close> is an unsigned integer of \<open>w\<close> bits, \<open>w\<close> being 8 or 16 as
    \<open>offset_type_bits\<close> says. Offsets are natural numbers; every conversion to \<open>offset_type\<close>
    of the source is written \<open>to_offset_type w\<close> (reduction modulo \<open>2 ^ w\<close>).
    \<open>std::size_t\<close> has 64 bits.
  \<^item> A slot of the raw storage holds either a live \<open>T\<close> or a free-list link
    (\<open>offset_accessor\<close>): the datatype \<open>slot\<close>.
  \<^item> A pointer \<open>T*\<close> into the storage is the index of its slot (\<open>ptr = data() + idx\<close>);
    \<open>nullptr\<close> is \<open>None\<close>.
  \<^item> A call yields \<open>Inr\<close> of its result, or \<open>Inl\<close> of the reason why it has none.
\<close>

datatype error =
    out_of_range          \<comment> \<open>\<open>std::out_of_range\<close> leaves the call\<close>
  | constructor_threw     \<comment> \<open>the constructor of \<open>T\<close> threw; the exception leaves the call\<close>
  | aborted               \<comment> \<open>a failed \<open>assert\<close>, or an exception inside a \<open>noexcept\<close> function\<close>
  | undefined_behaviour   \<comment> \<open>a link is read from a slot that holds a value, or outside the array\<close>
  | no_return             \<comment> \<open>the loop never ends\<close>

datatype 'a slot = Value 'a | Offset nat

record 'a inplace_free_list =
  storage :: "'a slot list"
  first_free :: nat
  size_m :: nat

subsection \<open>The link type\<close>

definition offset_type_bits :: "nat \<Rightarrow> nat" where
  "offset_type_bits sizeof_T = (if sizeof_T = 1 then 8 else 16)"

definition offset_type_npos :: "nat \<Rightarrow> nat" where
  "offset_type_npos w = 2 ^ w - 1"

definition static_assert_Capacity :: "nat \<Rightarrow> nat \<Rightarrow> bool" where
  "static_assert_Capacity w Capacity \<longleftrightarrow> Capacity < offset_type_npos w"

definition to_offset_type :: "nat \<Rightarrow> nat \<Rightarrow> nat" where
  "to_offset_type w n = n mod 2 ^ w"

definition to_size_t :: "nat \<Rightarrow> nat" where
  "to_size_t n = n mod 2 ^ 64"

text \<open>
  The width the specification asks for: the smallest of the unsigned widths 8, 16, 32, 64
  whose values cover the indices \<open>0..Capacity\<close> and a sentinel besides.
\<close>

definition spec_smallest_offset_bits :: "nat \<Rightarrow> nat" where
  "spec_smallest_offset_bits Capacity =
     (if Capacity < 2 ^ 8 - 1 then 8
      else if Capacity < 2 ^ 16 - 1 then 16
      else if Capacity < 2 ^ 32 - 1 then 32 else 64)"

subsection \<open>Observers\<close>

definition capacity :: "'a inplace_free_list \<Rightarrow> nat" where
  "capacity a = length (storage a)"

definition size_arena :: "'a inplace_free_list \<Rightarrow> nat" where
  "size_arena a = size_m a"

definition empty :: "'a inplace_free_list \<Rightarrow> bool" where
  "empty a \<longleftrightarrow> size_arena a = 0"

definition full :: "nat \<Rightarrow> 'a inplace_free_list \<Rightarrow> bool" where
  "full w a \<longleftrightarrow> first_free a = offset_type_npos w"

text \<open>
  \<open>free_mask\<close>: the loop \<open>for (i = first_free_; i != npos; i = begin[i].offset) out.set(i)\<close>.
  \<open>bitset::set\<close> throws when \<open>i\<close> is not below \<open>Capacity\<close>, and \<open>free_mask\<close> is
  \<open>noexcept\<close>. The first argument bounds the number of iterations: \<open>free_mask\<close> gives it
  \<open>Capacity + 1\<close>, and a walk that has set a bit \<open>Capacity + 1\<close> times has been at some slot
  twice, so, the storage being the same, it never ends.
\<close>

fun free_mask_loop :: "nat \<Rightarrow> nat \<Rightarrow> 'a slot list \<Rightarrow> nat \<Rightarrow> bool list \<Rightarrow> error + bool list" where
  "free_mask_loop 0 w st i out = Inl no_return"
| "free_mask_loop (Suc n) w st i out =
     (if i = offset_type_npos w then Inr out
      else if length out \<le> i then Inl aborted
      else (case st ! i of
              Offset nxt \<Rightarrow> free_mask_loop n w st nxt (out[i := True])
            | Value v \<Rightarrow> Inl undefined_behaviour))"

definition free_mask :: "nat \<Rightarrow> 'a inplace_free_list \<Rightarrow> error + bool list" where
  "free_mask w a =
     free_mask_loop (Suc (capacity a)) w (storage a) (first_free a) (replicate (capacity a) False)"

text \<open>
  The free chain itself, as the list of the slots the same walk visits, in order. It is
  what the claims call the free chain; no function of the source returns it.
\<close>

fun free_chain_from :: "nat \<Rightarrow> nat \<Rightarrow> 'a slot list \<Rightarrow> nat \<Rightarrow> nat list option" where
  "free_chain_from 0 w st i = None"
| "free_chain_from (Suc n) w st i =
     (if i = offset_type_npos w then Some []
      else if length st \<le> i then None
      else (case st ! i of
              Offset nxt \<Rightarrow> map_option ((#) i) (free_chain_from n w st nxt)
            | Value v \<Rightarrow> None))"

definition free_chain :: "nat \<Rightarrow> 'a inplace_free_list \<Rightarrow> nat list option" where
  "free_chain w a = free_chain_from (Suc (capacity a)) w (storage a) (first_free a)"

fun is_Value :: "'a slot \<Rightarrow> bool" where
  "is_Value (Value v) = True"
| "is_Value (Offset n) = False"

text \<open>The values the arena holds, by ascending slot.\<close>

fun live_values :: "'a slot list \<Rightarrow> 'a list" where
  "live_values [] = []"
| "live_values (Value v # st) = v # live_values st"
| "live_values (Offset n # st) = live_values st"

text \<open>
  The states the class keeps itself in: \<open>offset_type\<close> has 8 or 16 bits, there is a
  slot, the static assertion on \<open>Capacity\<close> holds, the
  free chain ends, visits no slot twice, every slot off the chain holds a value, and
  \<open>size_\<close> counts the slots off the chain.
\<close>

definition wf :: "nat \<Rightarrow> 'a inplace_free_list \<Rightarrow> bool" where
  "wf w a \<longleftrightarrow>
     w \<in> {8, 16} \<and> 0 < capacity a \<and> static_assert_Capacity w (capacity a) \<and>
     (case free_chain w a of
        None \<Rightarrow> False
      | Some c \<Rightarrow> distinct c \<and>
          (\<forall>i \<in> set [0..<capacity a]. i \<in> set c \<or> is_Value (storage a ! i)) \<and>
          size_m a + length c = capacity a)"

subsection \<open>Construction\<close>

text \<open>
  \<open>initialize_empty\<close>: slot \<open>k\<close> receives the pre-incremented counter, \<open>k + 1\<close> as an
  \<open>offset_type\<close>; then the last slot receives \<open>npos\<close>. Writing slot \<open>Capacity - 1\<close> of an
  array of no slots is outside the array.
\<close>

definition initialize_empty :: "nat \<Rightarrow> nat \<Rightarrow> error + 'a inplace_free_list" where
  "initialize_empty w Capacity =
     (if Capacity = 0 then Inl undefined_behaviour
      else Inr \<lparr>storage = (map (\<lambda>k. Offset (to_offset_type w (k + 1))) [0..<Capacity])
                             [Capacity - 1 := Offset (offset_type_npos w)],
               first_free = 0, size_m = 0\<rparr>)"

subsection \<open>Pointers and indices\<close>

definition owns :: "'a inplace_free_list \<Rightarrow> nat \<Rightarrow> bool" where
  "owns a ptr \<longleftrightarrow> ptr < capacity a"

definition as_index :: "'a inplace_free_list \<Rightarrow> nat \<Rightarrow> error + nat" where
  "as_index a ptr = (if owns a ptr then Inr ptr else Inl aborted)"

definition holds_value :: "nat \<Rightarrow> 'a inplace_free_list \<Rightarrow> nat \<Rightarrow> error + bool" where
  "holds_value w a ptr =
     (case free_mask w a of
        Inl e \<Rightarrow> Inl e
      | Inr fmask \<Rightarrow> (case as_index a ptr of Inl e \<Rightarrow> Inl e | Inr idx \<Rightarrow> Inr (\<not> fmask ! idx)))"

definition holds_value_at :: "nat \<Rightarrow> 'a inplace_free_list \<Rightarrow> nat \<Rightarrow> error + bool" where
  "holds_value_at w a idx =
     (if \<not> owns a idx then Inl aborted
      else (case free_mask w a of Inl e \<Rightarrow> Inl e | Inr fmask \<Rightarrow> Inr (\<not> fmask ! idx)))"

definition at :: "nat \<Rightarrow> 'a inplace_free_list \<Rightarrow> nat \<Rightarrow> error + nat" where
  "at w a idx =
     (if \<not> owns a idx then Inl out_of_range
      else (case holds_value w a idx of
              Inl e \<Rightarrow> Inl e
            | Inr held \<Rightarrow> if \<not> held then Inl out_of_range else Inr idx))"

text \<open>Reading \<open>*ptr\<close>.\<close>

definition deref :: "'a inplace_free_list \<Rightarrow> nat \<Rightarrow> error + 'a" where
  "deref a ptr =
     (if \<not> owns a ptr then Inl undefined_behaviour
      else (case storage a ! ptr of Value v \<Rightarrow> Inr v | Offset n \<Rightarrow> Inl undefined_behaviour))"

subsection \<open>\<open>emplace\<close> and \<open>erase\<close>\<close>

text \<open>
  \<open>emplace\<close>: the third argument is what \<open>std::construct_at(out, args...)\<close> does, \<open>Some v\<close>
  when it constructs \<open>v\<close> and \<open>None\<close> when the constructor throws. The head of the chain is
  popped before the construction, \<open>size_\<close> is incremented after it. The second component
  of the result is the arena the call leaves behind.
\<close>

definition emplace ::
  "nat \<Rightarrow> 'a inplace_free_list \<Rightarrow> 'a option \<Rightarrow> (error + nat option) \<times> 'a inplace_free_list" where
  "emplace w a c =
     (if first_free a = offset_type_npos w then (Inr None, a)
      else if capacity a \<le> first_free a then (Inl undefined_behaviour, a)
      else (case storage a ! first_free a of
              Value u \<Rightarrow> (Inl undefined_behaviour, a)
            | Offset nxt \<Rightarrow>
                (let out = first_free a;
                     a1 = a\<lparr>first_free := nxt\<rparr>
                 in case c of
                      None \<Rightarrow> (Inl constructor_threw, a1)
                    | Some v \<Rightarrow>
                        (Inr (Some out),
                         a1\<lparr>storage := (storage a1)[out := Value v],
                            size_m := to_size_t (size_m a1 + 1)\<rparr>))))"

text \<open>
  \<open>erase\<close>: \<open>assert_holds_value\<close>, then the slot becomes a link to the old head and the new
  head. \<open>size_ - 1\<close> is computed in \<open>std::size_t\<close>.
\<close>

definition erase :: "nat \<Rightarrow> 'a inplace_free_list \<Rightarrow> nat \<Rightarrow> error + 'a inplace_free_list" where
  "erase w a ptr =
     (case holds_value w a ptr of
        Inl e \<Rightarrow> Inl e
      | Inr held \<Rightarrow>
          if \<not> held then Inl aborted
          else Inr (a\<lparr>storage := (storage a)[ptr := Offset (first_free a)],
                     first_free := to_offset_type w ptr,
                     size_m := to_size_t (size_m a + 2 ^ 64 - 1)\<rparr>))"

subsection \<open>\<open>sort\<close> and \<open>optimize_at\<close>\<close>

text \<open>
  \<open>sort\<close>: \<open>idx\<close> runs over \<open>0, ..., Capacity - 1\<close> (the static assertion keeps \<open>idx++\<close> from
  wrapping), \<open>rev_idx\<close> is \<open>Capacity - idx - 1\<close> as an \<open>offset_type\<close>.
\<close>

definition sort_step ::
  "nat \<Rightarrow> nat \<Rightarrow> bool list \<Rightarrow> nat \<Rightarrow> 'a slot list \<times> nat \<Rightarrow> 'a slot list \<times> nat" where
  "sort_step w Capacity fmask idx s =
     (let rev_idx = to_offset_type w (Capacity - idx - 1)
      in if fmask ! rev_idx
         then ((fst s)[rev_idx := Offset (snd s)], to_offset_type w rev_idx)
         else s)"

definition sort :: "nat \<Rightarrow> 'a inplace_free_list \<Rightarrow> error + 'a inplace_free_list" where
  "sort w a =
     (case free_mask w a of
        Inl e \<Rightarrow> Inl e
      | Inr fmask \<Rightarrow>
          (let s = fold (sort_step w (capacity a) fmask) [0..<capacity a]
                     (storage a, offset_type_npos w)
           in Inr (a\<lparr>storage := fst s, first_free := snd s\<rparr>)))"

text \<open>
  The loop of \<open>optimize_at\<close>. \<open>fmask\<close> is the local bitset (\<open>bitset::test\<close> throws outside
  it), \<open>cbs\<close> the calls of the callback so far, as pairs \<open>(from, to)\<close>, oldest first. Inside
  the loop \<open>left < right\<close>, so neither \<open>left++\<close> nor \<open>right--\<close> wraps. The move
  \<open>std::construct_at(dest, std::move(*source))\<close> puts the content of the source slot into
  the destination slot; the source slot then receives its link. The bitset and the storage
  have the same length, \<open>Capacity\<close>.
\<close>

function optimize_at_loop ::
  "nat \<Rightarrow> bool list \<Rightarrow> 'a slot list \<Rightarrow> nat \<Rightarrow> (nat \<times> nat) list \<Rightarrow> nat \<Rightarrow> nat \<Rightarrow>
   error + (bool list \<times> 'a slot list \<times> nat \<times> (nat \<times> nat) list \<times> nat)" where
  "optimize_at_loop w fmask st ff cbs left right =
     (if left < right then
        (if length fmask \<le> left then Inl out_of_range
         else if fmask ! left then
           (if length fmask \<le> right then Inl out_of_range
            else if fmask ! right then
              optimize_at_loop w fmask
                (st[right := Offset (to_offset_type w (right + 1))]) ff cbs left (right - 1)
            else
              optimize_at_loop w (fmask[left := False, right := True])
                (st[left := st ! right, right := Offset (to_offset_type w (right + 1))])
                right (cbs @ [(right, left)]) left right)
         else optimize_at_loop w fmask st ff cbs (left + 1) right)
      else Inr (fmask, st, ff, cbs, right))"
  by pat_completeness auto
termination
  by (relation "measure (\<lambda>(w, fmask, st, ff, cbs, left, right).
        2 * (right - left) + (if left < length fmask \<and> fmask ! left then 1 else 0))")
     (auto simp: nth_list_update)

declare optimize_at_loop.simps [simp del]

text \<open>
  \<open>optimize_at\<close>: \<open>Capacity - 1\<close> is computed in \<open>std::size_t\<close> and, for \<open>right\<close>, converted
  to \<open>offset_type\<close>. \<open>right >= 0\<close> holds of every unsigned value.
\<close>

definition optimize_at ::
  "nat \<Rightarrow> 'a inplace_free_list \<Rightarrow> error + ((nat \<times> nat) list \<times> 'a inplace_free_list)" where
  "optimize_at w a =
     (case free_mask w a of
        Inl e \<Rightarrow> Inl e
      | Inr fmask \<Rightarrow>
          (let last_slot = to_size_t (capacity a + 2 ^ 64 - 1)
           in case optimize_at_loop w fmask (storage a) (first_free a) [] 0
                     (to_offset_type w last_slot) of
                Inl e \<Rightarrow> Inl e
              | Inr (fmask1, st1, ff1, cbs, right) \<Rightarrow>
                  if length fmask1 \<le> right then Inl out_of_range
                  else
                    (let ff2 = (if fmask1 ! right then right else ff1);
                         st2 = (if fmask1 ! right
                                then st1[right := Offset (to_offset_type w (right + 1))]
                                else st1)
                     in if length fmask1 \<le> last_slot then Inl out_of_range
                        else
                          Inr (cbs,
                               a\<lparr>storage := (if fmask1 ! last_slot
                                              then st2[last_slot := Offset (offset_type_npos w)]
                                              else st2),
                                 first_free := ff2\<rparr>))))"

subsection \<open>Moving an arena\<close>

text \<open>
  \<open>destroy_all\<close> computes the free mask and destroys the values off it; the callers
  overwrite every slot afterwards. \<open>initialize_move\<close> copies the two scalar members and
  then either assigns the whole array (\<open>trivially_copy_constructible\<close>) or walks the free
  chain of the source as \<open>free_mask\<close> does, copying the links, and moves the values of the
  other slots: either way every slot receives the content of the source's slot.
\<close>

definition destroy_all :: "nat \<Rightarrow> 'a inplace_free_list \<Rightarrow> error + unit" where
  "destroy_all w a = (case free_mask w a of Inl e \<Rightarrow> Inl e | Inr fmask \<Rightarrow> Inr ())"

definition initialize_move ::
  "bool \<Rightarrow> nat \<Rightarrow> 'a inplace_free_list \<Rightarrow> error + 'a inplace_free_list" where
  "initialize_move trivially_copy_constructible w other =
     (if trivially_copy_constructible
      then Inr \<lparr>storage = storage other, first_free = first_free other, size_m = size_m other\<rparr>
      else (case free_mask w other of
              Inl e \<Rightarrow> Inl e
            | Inr fmask \<Rightarrow>
                Inr \<lparr>storage = storage other, first_free = first_free other,
                     size_m = size_m other\<rparr>))"

text \<open>The move constructor; the result is the new arena and the source after the call.\<close>

definition move_constructor ::
  "bool \<Rightarrow> nat \<Rightarrow> 'a inplace_free_list \<Rightarrow> error + ('a inplace_free_list \<times> 'a inplace_free_list)" where
  "move_constructor trivially_copy_constructible w other =
     (case initialize_move trivially_copy_constructible w other of
        Inl e \<Rightarrow> Inl e
      | Inr this \<Rightarrow>
          (case initialize_empty w (capacity other) of
             Inl e \<Rightarrow> Inl e
           | Inr other' \<Rightarrow> Inr (this, other')))"

text \<open>Move assignment to \<open>this\<close>; the result is \<open>*this\<close> and the source after the call.\<close>

definition move_assignment ::
  "bool \<Rightarrow> nat \<Rightarrow> 'a inplace_free_list \<Rightarrow> 'a inplace_free_list \<Rightarrow>
   error + ('a inplace_free_list \<times> 'a inplace_free_list)" where
  "move_assignment trivially_copy_constructible w this other =
     (case destroy_all w this of
        Inl e \<Rightarrow> Inl e
      | Inr u \<Rightarrow> move_constructor trivially_copy_constructible w other)"

subsection \<open>Sequences of calls\<close>

text \<open>
  A call of a sequence is an \<open>emplace\<close>, given with what the constructor of \<open>T\<close> does in it
  (\<open>Some v\<close>: it constructs \<open>v\<close>; \<open>None\<close>: it throws), or an \<open>erase\<close> of a pointer. The
  caller catches the exception of a throwing constructor and goes on with the arena as
  \<open>emplace\<close> left it; a failed assertion ends the sequence.
\<close>

datatype 'a operation = Emplace "'a option" | Erase nat

fun throws :: "'a operation \<Rightarrow> bool" where
  "throws (Emplace None) = True"
| "throws (Emplace (Some v)) = False"
| "throws (Erase ptr) = False"

fun apply_operation ::
  "nat \<Rightarrow> 'a inplace_free_list \<Rightarrow> 'a operation \<Rightarrow> error + 'a inplace_free_list" where
  "apply_operation w a (Emplace c) =
     (case emplace w a c of
        (Inl e, a') \<Rightarrow> if e = constructor_threw then Inr a' else Inl e
      | (Inr p, a') \<Rightarrow> Inr a')"
| "apply_operation w a (Erase ptr) = erase w a ptr"

fun run :: "nat \<Rightarrow> 'a inplace_free_list \<Rightarrow> 'a operation list \<Rightarrow> error + 'a inplace_free_list" where
  "run w a [] = Inr a"
| "run w a (x # xs) =
     (case apply_operation w a x of Inl e \<Rightarrow> Inl e | Inr a' \<Rightarrow> run w a' xs)"

subsection \<open>The free chain as a list\<close>

text \<open>
  \<open>chain w st i c\<close>: walking the links of \<open>st\<close> from \<open>i\<close> visits exactly the slots \<open>c\<close>, in
  this order, and then reaches \<open>npos\<close>. It is \<open>free_chain_from\<close> without the bound.
\<close>

fun chain :: "nat \<Rightarrow> 'a slot list \<Rightarrow> nat \<Rightarrow> nat list \<Rightarrow> bool" where
  "chain w st i [] \<longleftrightarrow> i = offset_type_npos w"
| "chain w st i (x # xs) \<longleftrightarrow>
     i = x \<and> i \<noteq> offset_type_npos w \<and> i < length st \<and>
     (case st ! i of Offset nxt \<Rightarrow> chain w st nxt xs | Value v \<Rightarrow> False)"

subsection \<open>The invariant of the compaction loop\<close>

text \<open>
  The slots that hold a value according to a bitset, as a multiset of slot contents.
\<close>

definition occupied_slots :: "bool list \<Rightarrow> 'a slot list \<Rightarrow> 'a slot multiset" where
  "occupied_slots fmask st = image_mset (nth st) (mset_set {i. i < length st \<and> \<not> fmask ! i})"

text \<open>
  What holds of the loop of \<open>optimize_at\<close> whenever its condition is tested, \<open>fmask0\<close>,
  \<open>st0\<close> and \<open>ff0\<close> being the bitset, the storage and \<open>first_free_\<close> at its start: the
  slots below \<open>left\<close> are occupied; the slots above \<open>right\<close> are free and linked each to
  its successor; either \<open>right\<close> is free, or \<open>left\<close> is free and below \<open>right\<close>, or nothing
  has changed yet; no slot is the source of two moves or the destination of two; a
  moved value sits in its destination; the values not moved are where they were; and
  the occupied slots hold the same multiset as at the start.
\<close>

definition optimize_inv ::
  "nat \<Rightarrow> bool list \<Rightarrow> 'a slot list \<Rightarrow> nat \<Rightarrow> bool list \<Rightarrow> 'a slot list \<Rightarrow> nat \<Rightarrow>
   (nat \<times> nat) list \<Rightarrow> nat \<Rightarrow> nat \<Rightarrow> bool" where
  "optimize_inv w fmask0 st0 ff0 fmask st ff cbs left right \<longleftrightarrow>
     Suc (length st0) < 2 ^ w \<and> length fmask0 = length st0 \<and>
     length fmask = length st0 \<and> length st = length st0 \<and>
     left \<le> right \<and> right < length st0 \<and>
     (\<forall>i<left. \<not> fmask ! i) \<and>
     (\<forall>i. right < i \<and> i < length st0 \<longrightarrow> fmask ! i \<and> st ! i = Offset (Suc i)) \<and>
     (fmask ! right \<or> (fmask ! left \<and> left < right) \<or>
      (Suc right = length st0 \<and> cbs = [] \<and> ff = ff0 \<and> fmask = fmask0 \<and> st = st0)) \<and>
     distinct (map fst cbs) \<and> distinct (map snd cbs) \<and>
     (\<forall>(f, t) \<in> set cbs. right \<le> f \<and> f < length st0 \<and> \<not> fmask0 ! f \<and> t \<le> left \<and> t < f \<and>
         fmask0 ! t \<and> \<not> fmask ! t \<and> fmask ! f \<and> st ! t = st0 ! f) \<and>
     (\<forall>i<length st0. \<not> fmask0 ! i \<longrightarrow> i \<notin> fst ` set cbs \<longrightarrow> \<not> fmask ! i \<and> st ! i = st0 ! i) \<and>
     (\<forall>i<length st0. \<not> fmask ! i \<longrightarrow> i \<in> snd ` set cbs \<or> (\<not> fmask0 ! i \<and> i \<notin> fst ` set cbs)) \<and>
     occupied_slots fmask st = occupied_slots fmask0 st0"

section \<open>Properties of the arena\<close>

subsection \<open>The free chain and the invariant\<close>

lemma free_chain_from_iff:
  "free_chain_from n w st i = Some c \<longleftrightarrow> chain w st i c \<and> length c < n"
proof (induction n arbitrary: i c)
  case 0
  then show ?case by simp
next
  case (Suc n)
  show ?case
  proof (cases c)
    case Nil
    then show ?thesis by (auto split: slot.splits)
  next
    case (Cons x xs)
    then show ?thesis using Suc.IH by (auto split: slot.splits)
  qed
qed

lemma chain_unique: "chain w st i c \<Longrightarrow> chain w st i d \<Longrightarrow> c = d"
proof (induction c arbitrary: i d)
  case Nil
  then show ?case by (cases d) auto
next
  case (Cons x xs)
  then show ?case by (cases d) (auto split: slot.splits)
qed

lemma chain_update:
  "chain w st i c \<Longrightarrow> j \<notin> set c \<Longrightarrow> chain w (st[j := s]) i c"
  by (induction c arbitrary: i) (auto split: slot.splits)

lemma chain_links:
  "chain w st i c \<Longrightarrow> x \<in> set c \<Longrightarrow> x < length st \<and> \<not> is_Value (st ! x) \<and> x \<noteq> offset_type_npos w"
  by (induction c arbitrary: i) (auto split: slot.splits)

lemma free_mask_loop_chain:
  "chain w st i c \<Longrightarrow> length c < n \<Longrightarrow> length out = length st \<Longrightarrow>
   \<exists>m. free_mask_loop n w st i out = Inr m \<and> length m = length st \<and>
       (\<forall>k<length st. m ! k = (out ! k \<or> k \<in> set c))"
proof (induction n arbitrary: i c out)
  case 0
  then show ?case by simp
next
  case (Suc n)
  show ?case
  proof (cases c)
    case Nil
    with Suc.prems show ?thesis by simp
  next
    case (Cons x xs)
    with Suc.prems obtain nxt where
      x: "i = x" "i \<noteq> offset_type_npos w" "i < length st" "st ! i = Offset nxt" "chain w st nxt xs"
      by (auto split: slot.splits)
    from Suc.IH[OF x(5), of "out[i := True]"] Suc.prems Cons
    obtain m where m: "free_mask_loop n w st nxt (out[i := True]) = Inr m" "length m = length st"
      "\<forall>k<length st. m ! k = ((out[i := True]) ! k \<or> k \<in> set xs)"
      by auto
    have "\<forall>k<length st. m ! k = (out ! k \<or> k \<in> set c)"
      using m(3) x(1,3) Cons Suc.prems(3) by (auto simp: nth_list_update)
    with m x Suc.prems show ?thesis by simp
  qed
qed

lemma wf_iff:
  "wf w a \<longleftrightarrow>
     w \<in> {8, 16} \<and> 0 < capacity a \<and> capacity a < offset_type_npos w \<and>
     (\<exists>c. chain w (storage a) (first_free a) c \<and> distinct c \<and>
          (\<forall>i<capacity a. i \<in> set c \<or> is_Value (storage a ! i)) \<and>
          size_m a + length c = capacity a)"
proof -
  have fc: "free_chain w a = Some c \<longleftrightarrow> chain w (storage a) (first_free a) c \<and> length c \<le> capacity a" for c
    unfolding free_chain_def using free_chain_from_iff[of "Suc (capacity a)" w "storage a" "first_free a" c]
    by (simp del: free_chain_from.simps add: less_Suc_eq_le)
  show ?thesis
  proof
    assume l: "wf w a"
    then obtain c where c: "free_chain w a = Some c"
      unfolding wf_def by (cases "free_chain w a") auto
    with l have "distinct c \<and> (\<forall>i<capacity a. i \<in> set c \<or> is_Value (storage a ! i)) \<and>
        size_m a + length c = capacity a"
      unfolding wf_def by simp
    moreover have "chain w (storage a) (first_free a) c" using c fc by simp
    ultimately show "w \<in> {8, 16} \<and> 0 < capacity a \<and> capacity a < offset_type_npos w \<and>
     (\<exists>c. chain w (storage a) (first_free a) c \<and> distinct c \<and>
          (\<forall>i<capacity a. i \<in> set c \<or> is_Value (storage a ! i)) \<and>
          size_m a + length c = capacity a)"
      using l unfolding wf_def static_assert_Capacity_def by blast
  next
    assume r: "w \<in> {8, 16} \<and> 0 < capacity a \<and> capacity a < offset_type_npos w \<and>
     (\<exists>c. chain w (storage a) (first_free a) c \<and> distinct c \<and>
          (\<forall>i<capacity a. i \<in> set c \<or> is_Value (storage a ! i)) \<and>
          size_m a + length c = capacity a)"
    then obtain c where c: "chain w (storage a) (first_free a) c" "distinct c"
      "\<forall>i<capacity a. i \<in> set c \<or> is_Value (storage a ! i)" "size_m a + length c = capacity a"
      by blast
    have "free_chain w a = Some c" using c(1,4) fc by simp
    then show "wf w a"
      unfolding wf_def static_assert_Capacity_def using r c by simp
  qed
qed

lemma npos_bounds: "w \<in> {8, 16} \<Longrightarrow> n < offset_type_npos w \<Longrightarrow> n < 2 ^ w \<and> n < 2 ^ 64 \<and> Suc n < 2 ^ w \<and> Suc n < 2 ^ 64"
  by (auto simp: offset_type_npos_def)

lemma free_chain_eq:
  "chain w (storage a) (first_free a) c \<Longrightarrow> length c \<le> capacity a \<Longrightarrow> free_chain w a = Some c"
  unfolding free_chain_def by (simp add: free_chain_from_iff del: free_chain_from.simps)

lemma free_mask_chain:
  assumes "chain w (storage a) (first_free a) c" "length c \<le> capacity a"
  shows "\<exists>m. free_mask w a = Inr m \<and> length m = capacity a \<and> (\<forall>k<capacity a. m ! k = (k \<in> set c))"
  using free_mask_loop_chain[OF assms(1), of "Suc (capacity a)" "replicate (capacity a) False"] assms(2)
  unfolding free_mask_def capacity_def by auto

lemma distinct_length_le:
  assumes "distinct c" "set c \<subseteq> {..<n}"
  shows "length c \<le> n"
proof -
  have "length c = card (set c)" using assms(1) by (simp add: distinct_card)
  also have "\<dots> \<le> card {..<n}" using assms(2) by (intro card_mono) auto
  finally show ?thesis by simp
qed

lemma distinct_length_less:
  assumes "distinct c" "set c \<subseteq> {..<n}" "p < n" "p \<notin> set c"
  shows "length c < n"
proof -
  have "length c = card (set c)" using assms(1) by (simp add: distinct_card)
  also have "\<dots> \<le> card ({..<n} - {p})" using assms(2,4) by (intro card_mono) auto
  also have "\<dots> < n" using assms(3) by simp
  finally show ?thesis .
qed

lemma emplace_full:
  "first_free a = offset_type_npos w \<Longrightarrow> emplace w a c = (Inr None, a)"
  by (simp add: emplace_def)

lemma emplace_pop:
  assumes "chain w (storage a) (first_free a) (x # xs)"
  shows "\<exists>nxt. storage a ! x = Offset nxt \<and> chain w (storage a) nxt xs \<and>
     emplace w a (Some v) =
       (Inr (Some x), a\<lparr>storage := (storage a)[x := Value v], first_free := nxt,
                         size_m := to_size_t (size_m a + 1)\<rparr>) \<and>
     emplace w a None = (Inl constructor_threw, a\<lparr>first_free := nxt\<rparr>)"
  using assms by (auto simp: emplace_def capacity_def Let_def split: slot.splits)

lemma wf_emplace:
  assumes "wf w a" "emplace w a (Some v) = (r, a')"
  shows "wf w a'"
proof -
  from assms(1) obtain c where c: "w \<in> {8, 16}" "0 < capacity a" "capacity a < offset_type_npos w"
    "chain w (storage a) (first_free a) c" "distinct c"
    "\<forall>i<capacity a. i \<in> set c \<or> is_Value (storage a ! i)" "size_m a + length c = capacity a"
    unfolding wf_iff by blast
  show ?thesis
  proof (cases c)
    case Nil
    with c(4) have "first_free a = offset_type_npos w" by simp
    with assms show ?thesis by (simp add: emplace_def)
  next
    case (Cons x xs)
    from emplace_pop[OF c(4)[unfolded Cons], of v] assms(2) obtain nxt where
      n: "storage a ! x = Offset nxt" "chain w (storage a) nxt xs"
         "a' = a\<lparr>storage := (storage a)[x := Value v], first_free := nxt,
                         size_m := to_size_t (size_m a + 1)\<rparr>"
      by auto
    have x: "x \<notin> set xs" "distinct xs" using c(5) Cons by auto
    have xl: "x < capacity a" using chain_links[OF c(4), of x] Cons by (simp add: capacity_def)
    have sz: "to_size_t (size_m a + 1) = size_m a + 1"
      using c(7) Cons npos_bounds[OF c(1) c(3)] by (simp add: to_size_t_def)
    have "chain w (storage a') (first_free a') xs"
      using chain_update[OF n(2) x(1)] n(3) by simp
    moreover have "\<forall>i<capacity a'. i \<in> set xs \<or> is_Value (storage a' ! i)"
      using c(6) Cons n(3) xl by (auto simp: capacity_def nth_list_update)
    moreover have "size_m a' + length xs = capacity a'"
      using c(7) Cons n(3) sz by (simp add: capacity_def)
    moreover have "capacity a' = capacity a" using n(3) by (simp add: capacity_def)
    ultimately show ?thesis unfolding wf_iff using c(1,2,3) x(2) by auto
  qed
qed

lemma holds_value_wf:
  assumes "chain w (storage a) (first_free a) c" "length c \<le> capacity a"
  shows "holds_value w a p = (if p < capacity a then Inr (p \<notin> set c) else Inl aborted)"
  using free_mask_chain[OF assms] by (auto simp: holds_value_def as_index_def owns_def)

lemma erase_wf:
  assumes "wf w a"
  shows "(\<exists>a'. erase w a p = Inr a') \<longleftrightarrow> p < capacity a \<and> is_Value (storage a ! p)"
    and "erase w a p = Inr a' \<Longrightarrow> wf w a' \<and> capacity a' = capacity a"
    and "erase w a p = Inl e \<Longrightarrow> e = aborted"
proof -
  from assms(1) obtain c where c: "w \<in> {8, 16}" "0 < capacity a" "capacity a < offset_type_npos w"
    "chain w (storage a) (first_free a) c" "distinct c"
    "\<forall>i<capacity a. i \<in> set c \<or> is_Value (storage a ! i)" "size_m a + length c = capacity a"
    unfolding wf_iff by blast
  have len: "length c \<le> capacity a" using c(7) by simp
  note hv = holds_value_wf[OF c(4) len, of p]
  have occ: "p < capacity a \<Longrightarrow> (p \<notin> set c) = is_Value (storage a ! p)"
    using c(6) chain_links[OF c(4), of p] by auto
  show "(\<exists>a'. erase w a p = Inr a') \<longleftrightarrow> p < capacity a \<and> is_Value (storage a ! p)"
    using occ by (auto simp: erase_def hv)
  show "erase w a p = Inl e \<Longrightarrow> e = aborted"
    by (auto simp: erase_def hv split: if_splits)
  assume e: "erase w a p = Inr a'"
  then have p: "p < capacity a" "p \<notin> set c"
    and a': "a' = a\<lparr>storage := (storage a)[p := Offset (first_free a)],
                     first_free := to_offset_type w p,
                     size_m := to_size_t (size_m a + 2 ^ 64 - 1)\<rparr>"
    by (auto simp: erase_def hv split: if_splits)
  have sub: "set c \<subseteq> {..<capacity a}" using chain_links[OF c(4)] by (auto simp: capacity_def)
  have "length c < capacity a" using distinct_length_less[OF c(5) sub p] .
  then have pos: "0 < size_m a" using c(7) by simp
  have "size_m a < 2 ^ 64" using c(7) npos_bounds[OF c(1) c(3)] by simp
  then have sz: "to_size_t (size_m a + 2 ^ 64 - 1) = size_m a - 1"
    using pos by (simp add: to_size_t_def mod_if)
  have pp: "to_offset_type w p = p" using p(1) npos_bounds[OF c(1) c(3)] by (simp add: to_offset_type_def)
  have pn: "p \<noteq> offset_type_npos w" using p(1) c(3) by simp
  have "chain w (storage a') (first_free a') (p # c)"
    using chain_update[OF c(4) p(2)] p(1) pn by (simp add: a' pp capacity_def)
  moreover have "distinct (p # c)" using c(5) p(2) by simp
  moreover have "\<forall>i<capacity a'. i \<in> set (p # c) \<or> is_Value (storage a' ! i)"
    using c(6) by (auto simp: a' capacity_def nth_list_update)
  moreover have "size_m a' + length (p # c) = capacity a'"
    using c(7) pos sz by (simp add: a' capacity_def)
  moreover have "capacity a' = capacity a" by (simp add: a' capacity_def)
  ultimately show "wf w a' \<and> capacity a' = capacity a"
    unfolding wf_iff using c(1,2,3) by metis
qed

subsection \<open>The link type\<close>

text \<open>
  Claim C9, as the code has it. For every instantiation that passes the static assertion,
  the link type is at least as wide as the smallest sufficient unsigned width, it is that
  width exactly when \<open>sizeof(T) = 1\<close> or \<open>Capacity\<close> is at least 255 (the width is chosen
  by the size of \<open>T\<close>, not by \<open>Capacity\<close>), and \<open>Capacity\<close> is strictly less than the
  sentinel.
\<close>

theorem offset_type_width:
  assumes "static_assert_Capacity (offset_type_bits sizeof_T) Capacity"
  shows "spec_smallest_offset_bits Capacity \<le> offset_type_bits sizeof_T \<and>
         (offset_type_bits sizeof_T = spec_smallest_offset_bits Capacity \<longleftrightarrow>
            sizeof_T = 1 \<or> 255 \<le> Capacity) \<and>
         Capacity < offset_type_npos (offset_type_bits sizeof_T)"
  using assms
  by (auto simp: static_assert_Capacity_def offset_type_bits_def offset_type_npos_def
        spec_smallest_offset_bits_def split: if_splits)

theorem offset_type_width_witness:
  "static_assert_Capacity (offset_type_bits 4) 32 \<and>
   spec_smallest_offset_bits 32 \<le> offset_type_bits 4 \<and>
   offset_type_bits 4 \<noteq> spec_smallest_offset_bits 32 \<and>
   32 < offset_type_npos (offset_type_bits 4)"
proof -
  have h: "static_assert_Capacity (offset_type_bits 4) 32"
    by (simp add: static_assert_Capacity_def offset_type_bits_def offset_type_npos_def)
  show ?thesis using h offset_type_width[OF h] by simp
qed

text \<open>
  Claim C9 as stated fails: for a four-byte \<open>T\<close> and \<open>Capacity = 32\<close> (an instantiation of
  the test suite) the link type has 16 bits, and 8 bits cover \<open>0..32\<close> and the sentinel.
\<close>

theorem offset_type_not_smallest:
  "static_assert_Capacity (offset_type_bits 4) 32 \<and>
   offset_type_bits 4 = 16 \<and> spec_smallest_offset_bits 32 = 8"
  by (simp add: static_assert_Capacity_def offset_type_bits_def offset_type_npos_def
        spec_smallest_offset_bits_def)

lemma initialize_empty_chain:
  assumes w: "w \<in> {8, 16}" and C: "C < offset_type_npos w"
  defines "st \<equiv> (map (\<lambda>k. Offset (to_offset_type w (k + 1))) [0..<C])[C - 1 := Offset (offset_type_npos w)]"
  shows "k < C \<Longrightarrow> chain w (st :: 'a slot list) k [k..<C]"
proof (induction "C - k" arbitrary: k)
  case 0
  then show ?case by simp
next
  case (Suc d)
  have kn: "k \<noteq> offset_type_npos w" using Suc.prems C by simp
  have len: "length st = C" by (simp add: st_def)
  have up: "[k..<C] = k # [Suc k..<C]" using Suc.prems by (simp add: upt_conv_Cons)
  show ?case
  proof (cases "Suc k = C")
    case True
    then have "st ! k = Offset (offset_type_npos w)" by (auto simp: st_def)
    then show ?thesis using True kn len Suc.prems up by simp
  next
    case False
    then have lt: "Suc k < C" using Suc.prems by simp
    have "to_offset_type w (k + 1) = Suc k"
      using npos_bounds[OF w C] lt by (simp add: to_offset_type_def)
    then have "st ! k = Offset (Suc k)" using lt by (simp add: st_def)
    moreover have "chain w st (Suc k) [Suc k..<C]" using Suc.hyps(1)[of "Suc k"] Suc.hyps(2) lt by simp
    ultimately show ?thesis using kn len Suc.prems up by simp
  qed
qed

lemma initialize_empty_wf:
  assumes w: "w \<in> {8, 16}" and C0: "0 < C" and C: "C < offset_type_npos w"
  shows "\<exists>a. initialize_empty w C = Inr (a :: 'a inplace_free_list) \<and> wf w a \<and> capacity a = C \<and>
     size_m a = 0 \<and> first_free a = 0 \<and> chain w (storage a) (first_free a) [0..<C]"
proof -
  define a :: "'a inplace_free_list" where "a = \<lparr>storage = (map (\<lambda>k. Offset (to_offset_type w (k + 1))) [0..<C])
                             [C - 1 := Offset (offset_type_npos w)],
               first_free = 0, size_m = 0\<rparr>"
  have ie: "initialize_empty w C = Inr a" using C0 by (simp add: initialize_empty_def a_def)
  have ch: "chain w (storage a) (first_free a) [0..<C]"
    using initialize_empty_chain[OF w C, of 0] C0 by (simp add: a_def)
  have cap: "capacity a = C" by (simp add: a_def capacity_def)
  have "wf w a" unfolding wf_iff using w C0 C ch cap by (auto simp: a_def intro!: exI[of _ "[0..<C]"])
  then show ?thesis using ie ch cap by (auto simp: a_def)
qed

lemma wf_chainE:
  assumes "wf w a"
  obtains c where "w \<in> {8, 16}" "0 < capacity a" "capacity a < offset_type_npos w"
    "chain w (storage a) (first_free a) c" "distinct c"
    "\<forall>i<capacity a. (i \<in> set c) = (\<not> is_Value (storage a ! i))"
    "size_m a + length c = capacity a" "free_chain w a = Some c"
    "set c \<subseteq> {..<capacity a}" "length c \<le> capacity a"
proof -
  from assms obtain c where c: "w \<in> {8, 16}" "0 < capacity a" "capacity a < offset_type_npos w"
    "chain w (storage a) (first_free a) c" "distinct c"
    "\<forall>i<capacity a. i \<in> set c \<or> is_Value (storage a ! i)" "size_m a + length c = capacity a"
    unfolding wf_iff by blast
  have len: "length c \<le> capacity a" using c(7) by simp
  have "\<forall>i<capacity a. (i \<in> set c) = (\<not> is_Value (storage a ! i))"
    using c(6) chain_links[OF c(4)] by auto
  moreover have "set c \<subseteq> {..<capacity a}" using chain_links[OF c(4)] by (auto simp: capacity_def)
  ultimately show ?thesis using that c free_chain_eq[OF c(4) len] len by blast
qed

lemma free_mask_loop_numeral [simp]:
  "free_mask_loop (numeral k) w st i out = free_mask_loop (Suc (pred_numeral k)) w st i out"
  by (simp only: numeral_eq_Suc)

lemma free_chain_from_numeral [simp]:
  "free_chain_from (numeral k) w st i = free_chain_from (Suc (pred_numeral k)) w st i"
  by (simp only: numeral_eq_Suc)

lemma list_update_numeral [simp]:
  "(x # xs)[numeral k := v] = x # xs[pred_numeral k := v]"
  by (simp add: numeral_eq_Suc)

lemmas arena_eval = initialize_empty_def emplace_def erase_def holds_value_def holds_value_at_def
  at_def as_index_def owns_def free_mask_def free_chain_def capacity_def deref_def
  to_offset_type_def to_size_t_def offset_type_npos_def wf_def static_assert_Capacity_def
  size_arena_def empty_def full_def

lemma holds_value_wf_eq:
  assumes "wf w a" "i < capacity a"
  shows "holds_value w a i = Inr (is_Value (storage a ! i))"
proof -
  from assms(1) obtain c where c: "chain w (storage a) (first_free a) c"
    "\<forall>i<capacity a. (i \<in> set c) = (\<not> is_Value (storage a ! i))" "length c \<le> capacity a"
    by (rule wf_chainE)
  show ?thesis using holds_value_wf[OF c(1,3), of i] c(2) assms(2) by simp
qed

lemma at_wf:
  assumes "wf w a"
  shows "at w a i = (if i < capacity a \<and> is_Value (storage a ! i) then Inr i else Inl out_of_range)"
  using holds_value_wf_eq[OF assms, of i] by (simp add: at_def owns_def)

lemma emplace_wf_total:
  assumes "wf w a"
  shows "\<exists>p a'. emplace w a (Some v) = (Inr p, a') \<and> wf w a' \<and> capacity a' = capacity a \<and>
           (p = None \<longleftrightarrow> full w a)"
proof -
  from assms obtain c where c: "chain w (storage a) (first_free a) c"
    by (rule wf_chainE)
  show ?thesis
  proof (cases c)
    case Nil
    then have "first_free a = offset_type_npos w" using c by simp
    then show ?thesis using assms by (simp add: emplace_def full_def)
  next
    case (Cons x xs)
    from emplace_pop[OF c[unfolded Cons], of v] obtain nxt where
      e: "emplace w a (Some v) =
       (Inr (Some x), a\<lparr>storage := (storage a)[x := Value v], first_free := nxt,
                         size_m := to_size_t (size_m a + 1)\<rparr>)" by blast
    have "first_free a \<noteq> offset_type_npos w" using c Cons by simp
    then show ?thesis using wf_emplace[OF assms e] e by (simp add: capacity_def full_def)
  qed
qed

lemma apply_operation_wf:
  assumes "wf w a" "\<not> throws x"
  shows "case apply_operation w a x of
           Inr a' \<Rightarrow> wf w a' \<and> capacity a' = capacity a
         | Inl e \<Rightarrow> e = aborted"
proof (cases x)
  case (Emplace c)
  then obtain v where c: "c = Some v" using assms(2) by (cases c) auto
  from emplace_wf_total[OF assms(1), of v] show ?thesis using Emplace c by auto
next
  case (Erase p)
  show ?thesis using erase_wf(2,3)[OF assms(1), of p] Erase by (auto split: sum.splits)
qed

lemma run_wf:
  "wf w a \<Longrightarrow> \<forall>x \<in> set ops. \<not> throws x \<Longrightarrow>
   (case run w a ops of Inr a' \<Rightarrow> wf w a' \<and> capacity a' = capacity a | Inl e \<Rightarrow> e = aborted)"
proof (induction ops arbitrary: a)
  case Nil
  then show ?case by simp
next
  case (Cons x xs)
  have nx: "\<not> throws x" and nxs: "\<forall>x \<in> set xs. \<not> throws x" using Cons.prems(2) by simp_all
  show ?case
  proof (cases "apply_operation w a x")
    case (Inl e)
    then show ?thesis using apply_operation_wf[OF Cons.prems(1) nx] by simp
  next
    case (Inr a1)
    then have "wf w a1" "capacity a1 = capacity a"
      using apply_operation_wf[OF Cons.prems(1) nx] by simp_all
    then show ?thesis using Cons.IH[of a1] nxs Inr by (auto split: sum.splits)
  qed
qed

lemma apply_operation_capacity:
  "apply_operation w a x = Inr a' \<Longrightarrow> capacity a' = capacity a"
proof (cases x)
  case (Emplace c)
  assume "apply_operation w a x = Inr a'"
  then show ?thesis using Emplace
    by (cases c)
       (auto simp: emplace_def capacity_def Let_def split: if_splits slot.splits)
next
  case (Erase p)
  assume "apply_operation w a x = Inr a'"
  then show ?thesis using Erase
    by (auto simp: erase_def capacity_def split: sum.splits if_splits)
qed

lemma run_capacity:
  "run w a ops = Inr a' \<Longrightarrow> capacity a' = capacity a"
proof (induction ops arbitrary: a)
  case Nil
  then show ?case by simp
next
  case (Cons x xs)
  then obtain a1 where a1: "apply_operation w a x = Inr a1" "run w a1 xs = Inr a'"
    by (auto split: sum.splits)
  show ?case using Cons.IH[OF a1(2)] apply_operation_capacity[OF a1(1)] by simp
qed

subsection \<open>Capacity conservation\<close>

text \<open>
  Claim C4, as the code has it. From a state the class keeps, every sequence of \<open>emplace\<close>
  and \<open>erase\<close> calls in which no constructor throws either runs to its end, and then
  \<open>size()\<close> plus the length of the free chain equals \<open>capacity()\<close> (the state is again one
  the class keeps), or stops at the failed assertion of an \<open>erase\<close> of a slot that holds no
  value. Every prefix of a sequence is a sequence, so this holds after every call. Whatever
  the constructors do, \<open>capacity()\<close> after a sequence is what it was before. The freshly
  constructed arena is a state the class keeps, its chain being all slots in ascending
  order.
\<close>

theorem capacity_conservation:
  "(wf w (a :: 'a inplace_free_list) \<and> (\<forall>x \<in> set ops. \<not> throws x) \<longrightarrow>
      (case run w a ops of
         Inr a' \<Rightarrow>
           capacity a' = capacity a \<and> wf w a' \<and>
           (\<exists>c. free_chain w a' = Some c \<and> size_arena a' + length c = capacity a')
       | Inl e \<Rightarrow> e = aborted)) \<and>
   (\<forall>a'. run w a ops = Inr a' \<longrightarrow> capacity a' = capacity a) \<and>
   (w \<in> {8, 16} \<and> 0 < Capacity \<and> Capacity < offset_type_npos w \<longrightarrow>
      (\<exists>a0 :: 'a inplace_free_list. initialize_empty w Capacity = Inr a0 \<and> wf w a0 \<and>
          capacity a0 = Capacity \<and> free_chain w a0 = Some [0..<Capacity]))"
proof (intro conjI impI allI)
  assume h: "wf w (a :: 'a inplace_free_list) \<and> (\<forall>x \<in> set ops. \<not> throws x)"
  then have wf: "wf w a" and nt: "\<forall>x \<in> set ops. \<not> throws x" by simp_all
  show "case run w a ops of
         Inr a' \<Rightarrow>
           capacity a' = capacity a \<and> wf w a' \<and>
           (\<exists>c. free_chain w a' = Some c \<and> size_arena a' + length c = capacity a')
       | Inl e \<Rightarrow> e = aborted"
  proof (cases "run w a ops")
    case (Inl e)
    then show ?thesis using run_wf[OF wf nt] by simp
  next
    case (Inr a')
    then have w': "wf w a'" "capacity a' = capacity a" using run_wf[OF wf nt] by simp_all
    from w'(1) obtain c where "size_m a' + length c = capacity a'" "free_chain w a' = Some c"
      by (rule wf_chainE)
    then show ?thesis using Inr w' by (simp add: size_arena_def)
  qed
next
  fix a'
  assume "run w a ops = Inr a'"
  then show "capacity a' = capacity a" by (rule run_capacity)
next
  assume "w \<in> {8, 16} \<and> 0 < Capacity \<and> Capacity < offset_type_npos w"
  then have h: "w \<in> {8, 16}" "0 < Capacity" "Capacity < offset_type_npos w" by simp_all
  from initialize_empty_wf[OF h] obtain a0 :: "'a inplace_free_list" where
    a0: "initialize_empty w Capacity = Inr a0" "wf w a0" "capacity a0 = Capacity"
      "chain w (storage a0) (first_free a0) [0..<Capacity]" by blast
  have "free_chain w a0 = Some [0..<Capacity]" using free_chain_eq[OF a0(4)] a0(3) by simp
  then show "\<exists>a0 :: 'a inplace_free_list. initialize_empty w Capacity = Inr a0 \<and> wf w a0 \<and>
          capacity a0 = Capacity \<and> free_chain w a0 = Some [0..<Capacity]"
    using a0 by blast
qed

theorem capacity_conservation_witness:
  "wf 16 \<lparr>storage = [Offset 1, Offset 2, Offset 3, Offset 65535], first_free = 0, size_m = 0\<rparr> \<and>
   list_all (\<lambda>x. \<not> throws x)
     [Emplace (Some ''A''), Emplace (Some ''B''), Erase 0, Emplace (Some ''C''), Erase 1] \<and>
   run 16 \<lparr>storage = [Offset 1, Offset 2, Offset 3, Offset 65535], first_free = 0, size_m = 0\<rparr>
     [Emplace (Some ''A''), Emplace (Some ''B''), Erase 0, Emplace (Some ''C''), Erase 1] =
     Inr \<lparr>storage = [Value ''C'', Offset 2, Offset 3, Offset 65535], first_free = 1, size_m = 1\<rparr> \<and>
   free_chain 16 \<lparr>storage = [Value ''C'', Offset 2, Offset 3, Offset 65535], first_free = 1, size_m = 1\<rparr>
     = Some [1, 2, 3] \<and>
   initialize_empty 16 4 =
     Inr (\<lparr>storage = [Offset 1, Offset 2, Offset 3, Offset 65535], first_free = 0, size_m = 0\<rparr>
          :: string inplace_free_list)"
proof -
  have h: "wf 16 (\<lparr>storage = [Offset 1, Offset 2, Offset 3, Offset 65535], first_free = 0, size_m = 0\<rparr> :: string inplace_free_list)"
    by (simp add: arena_eval)
  have t: "\<forall>x \<in> set [Emplace (Some ''A''), Emplace (Some ''B''), Erase 0, Emplace (Some ''C''), Erase 1].
       \<not> throws x"
    by simp
  have r: "run 16 \<lparr>storage = [Offset 1, Offset 2, Offset 3, Offset 65535], first_free = 0, size_m = 0\<rparr>
     [Emplace (Some ''A''), Emplace (Some ''B''), Erase 0, Emplace (Some ''C''), Erase 1] =
     Inr \<lparr>storage = [Value ''C'', Offset 2, Offset 3, Offset 65535], first_free = 1, size_m = 1\<rparr>"
    by (simp add: arena_eval)
  have g: "(16::nat) \<in> {8, 16} \<and> (0::nat) < 4 \<and> 4 < offset_type_npos 16"
    by (simp add: offset_type_npos_def)
  show ?thesis
    using h t r g
      capacity_conservation[of 16 "\<lparr>storage = [Offset 1, Offset 2, Offset 3, Offset 65535], first_free = 0, size_m = 0\<rparr> :: string inplace_free_list"
         "[Emplace (Some ''A''), Emplace (Some ''B''), Erase 0, Emplace (Some ''C''), Erase 1]" 4]
    by (simp add: arena_eval upt_rec)
qed

text \<open>
  Claim C4 as stated fails: on the fresh arena of capacity 2 the one-call sequence of an
  \<open>emplace\<close> whose constructor throws ends in a state whose free chain is slot 1 alone
  while \<open>size()\<close> is 0, so \<open>size()\<close> plus the length of the free chain is 1 and
  \<open>capacity()\<close> is 2.
\<close>

theorem capacity_conservation_fails_after_throw:
  "wf 16 (\<lparr>storage = [Offset 1, Offset 65535], first_free = 0, size_m = 0\<rparr> :: string inplace_free_list) \<and>
   run 16 (\<lparr>storage = [Offset 1, Offset 65535], first_free = 0, size_m = 0\<rparr> :: string inplace_free_list)
     [Emplace None] =
     Inr \<lparr>storage = [Offset 1, Offset 65535], first_free = 1, size_m = 0\<rparr> \<and>
   free_chain 16 (\<lparr>storage = [Offset 1, Offset 65535], first_free = 1, size_m = 0\<rparr> :: string inplace_free_list)
     = Some [1] \<and>
   size_arena (\<lparr>storage = [Offset 1, Offset 65535], first_free = 1, size_m = 0\<rparr> :: string inplace_free_list)
     + length [1 :: nat] = 1 \<and>
   capacity (\<lparr>storage = [Offset 1, Offset 65535], first_free = 1, size_m = 0\<rparr> :: string inplace_free_list)
     = 2"
  by (simp add: arena_eval)

lemma emplace_wf_cases:
  assumes "wf w a" "free_chain w a = Some (x # xs)"
  shows "\<exists>nxt. storage a ! x = Offset nxt \<and> x < capacity a \<and> x \<notin> set xs \<and>
     to_size_t (size_m a + 1) = size_m a + 1 \<and> first_free a = x \<and>
     chain w (storage a) nxt xs \<and>
     emplace w a (Some v) =
       (Inr (Some x), a\<lparr>storage := (storage a)[x := Value v], first_free := nxt,
                         size_m := size_m a + 1\<rparr>) \<and>
     emplace w a None = (Inl constructor_threw, a\<lparr>first_free := nxt\<rparr>)"
proof -
  from assms(1) obtain c where c: "w \<in> {8, 16}" "capacity a < offset_type_npos w"
    "chain w (storage a) (first_free a) c" "distinct c" "size_m a + length c = capacity a"
    "free_chain w a = Some c" "set c \<subseteq> {..<capacity a}"
    by (rule wf_chainE)
  have cx: "c = x # xs" using c(6) assms(2) by simp
  have sz: "to_size_t (size_m a + 1) = size_m a + 1"
    using c(5) cx npos_bounds[OF c(1) c(2)] by (simp add: to_size_t_def)
  from emplace_pop[OF c(3)[unfolded cx], of v] obtain nxt where
    n: "storage a ! x = Offset nxt" "chain w (storage a) nxt xs"
       "emplace w a (Some v) =
       (Inr (Some x), a\<lparr>storage := (storage a)[x := Value v], first_free := nxt,
                         size_m := to_size_t (size_m a + 1)\<rparr>)"
       "emplace w a None = (Inl constructor_threw, a\<lparr>first_free := nxt\<rparr>)"
    by blast
  have "first_free a = x" using c(3) cx by simp
  then show ?thesis using n sz c(4,7) cx by auto
qed

subsection \<open>\<open>emplace\<close> and the free chain\<close>

text \<open>
  Claim C6. On an arena in a state the class keeps, \<open>emplace\<close> returns \<open>nullptr\<close> exactly
  when the free chain is empty; otherwise it pops the head \<open>x\<close> of the chain, constructs
  the value in slot \<open>x\<close>, increments \<open>size_\<close> and returns the address of slot \<open>x\<close>, the
  rest of the chain staying as it was. The scenario: a fresh arena of capacity 4 takes
  A, B, C, D in slots 0 to 3; a fifth \<open>emplace\<close> returns \<open>nullptr\<close> and changes nothing;
  after erasing slot 1 the free mask has bit 1 set and no other; the next \<open>emplace\<close> stores
  its value in slot 1.
\<close>

theorem emplace_pops_free_chain_head:
  "(wf w a \<longrightarrow>
      (fst (emplace w a (Some v)) = Inr None \<longleftrightarrow> free_chain w a = Some []) \<and>
      (\<forall>x xs. free_chain w a = Some (x # xs) \<longrightarrow>
         (\<exists>a'. emplace w a (Some v) = (Inr (Some x), a') \<and>
               storage a' = (storage a)[x := Value v] \<and> deref a' x = Inr v \<and>
               size_arena a' = size_arena a + 1 \<and> free_chain w a' = Some xs))) \<and>
   (\<exists>a0 a1 a2 a3 a4 a5 a6.
      initialize_empty 16 4 = Inr a0 \<and>
      emplace 16 a0 (Some ''A'') = (Inr (Some 0), a1) \<and>
      emplace 16 a1 (Some ''B'') = (Inr (Some 1), a2) \<and>
      emplace 16 a2 (Some ''C'') = (Inr (Some 2), a3) \<and>
      emplace 16 a3 (Some ''D'') = (Inr (Some 3), a4) \<and>
      emplace 16 a4 (Some ''E'') = (Inr None, a4) \<and>
      erase 16 a4 1 = Inr a5 \<and>
      free_mask 16 a5 = Inr [False, True, False, False] \<and>
      emplace 16 a5 (Some ''E'') = (Inr (Some 1), a6) \<and> deref a6 1 = Inr ''E'')"
proof (intro conjI impI allI)
  assume wf: "wf w a"
  then obtain c where c: "chain w (storage a) (first_free a) c" "free_chain w a = Some c"
    by (rule wf_chainE)
  show "(fst (emplace w a (Some v)) = Inr None) = (free_chain w a = Some [])"
  proof (cases c)
    case Nil
    then show ?thesis using c by (simp add: emplace_def)
  next
    case (Cons x xs)
    from emplace_wf_cases[OF wf c(2)[unfolded Cons], of v] show ?thesis using c(2) Cons by auto
  qed
next
  fix x xs
  assume wf: "wf w a" and fc: "free_chain w a = Some (x # xs)"
  from emplace_wf_cases[OF wf fc, of v] obtain nxt where
    n: "x < capacity a" "x \<notin> set xs" "chain w (storage a) nxt xs"
       "emplace w a (Some v) =
       (Inr (Some x), a\<lparr>storage := (storage a)[x := Value v], first_free := nxt,
                         size_m := size_m a + 1\<rparr>)"
    by blast
  define a' where "a' = a\<lparr>storage := (storage a)[x := Value v], first_free := nxt,
                         size_m := size_m a + 1\<rparr>"
  have "wf w a'" using wf_emplace[OF wf n(4)] by (simp add: a'_def)
  then obtain c' where c': "chain w (storage a') (first_free a') c'" "free_chain w a' = Some c'"
    by (rule wf_chainE)
  have "chain w (storage a') (first_free a') xs"
    using chain_update[OF n(3) n(2)] by (simp add: a'_def)
  then have "c' = xs" using c'(1) chain_unique by blast
  then show "\<exists>a'. emplace w a (Some v) = (Inr (Some x), a') \<and>
               storage a' = (storage a)[x := Value v] \<and> deref a' x = Inr v \<and>
               size_arena a' = size_arena a + 1 \<and> free_chain w a' = Some xs"
    using n(1,4) c'(2) by (auto simp: a'_def size_arena_def deref_def owns_def capacity_def)
next
  show "\<exists>a0 a1 a2 a3 a4 a5 a6.
      initialize_empty 16 4 = Inr a0 \<and>
      emplace 16 a0 (Some ''A'') = (Inr (Some 0), a1) \<and>
      emplace 16 a1 (Some ''B'') = (Inr (Some 1), a2) \<and>
      emplace 16 a2 (Some ''C'') = (Inr (Some 2), a3) \<and>
      emplace 16 a3 (Some ''D'') = (Inr (Some 3), a4) \<and>
      emplace 16 a4 (Some ''E'') = (Inr None, a4) \<and>
      erase 16 a4 1 = Inr a5 \<and>
      free_mask 16 a5 = Inr [False, True, False, False] \<and>
      emplace 16 a5 (Some ''E'') = (Inr (Some 1), a6) \<and> deref a6 1 = Inr ''E''"
    by (simp add: arena_eval upt_rec)
qed

theorem emplace_pops_free_chain_head_witness:
  "wf 16 \<lparr>storage = [Value ''A'', Offset 3, Value ''C'', Offset 65535], first_free = 1, size_m = 2\<rparr> \<and>
   free_chain 16 \<lparr>storage = [Value ''A'', Offset 3, Value ''C'', Offset 65535], first_free = 1, size_m = 2\<rparr>
     = Some [1, 3] \<and>
   (\<exists>a'. emplace 16 \<lparr>storage = [Value ''A'', Offset 3, Value ''C'', Offset 65535], first_free = 1, size_m = 2\<rparr>
           (Some ''E'') = (Inr (Some 1), a') \<and>
         storage a' = [Value ''A'', Value ''E'', Value ''C'', Offset 65535] \<and>
         size_arena a' = 3 \<and> free_chain 16 a' = Some [3])"
proof -
  have h: "wf 16 \<lparr>storage = [Value ''A'', Offset 3, Value ''C'', Offset 65535], first_free = 1, size_m = 2\<rparr>"
    by (simp add: arena_eval)
  have c: "free_chain 16 \<lparr>storage = [Value ''A'', Offset 3, Value ''C'', Offset 65535], first_free = 1, size_m = 2\<rparr>
     = Some [1, 3]"
    by (simp add: arena_eval)
  show ?thesis
    using h c emplace_pops_free_chain_head[of 16
        "\<lparr>storage = [Value ''A'', Offset 3, Value ''C'', Offset 65535], first_free = 1, size_m = 2\<rparr>" "''E''"]
    by (auto simp: size_arena_def numeral_3_eq_3)
qed

subsection \<open>Round trip\<close>

text \<open>
  Claim C7, for the arena. On a state the class keeps that is not full, \<open>emplace\<close>
  returns a pointer, \<open>as_index\<close> of it is an index, \<open>at\<close> of that index returns a pointer,
  and reading through it gives the value that was inserted. An \<open>erase\<close> of a slot that holds
  a value succeeds, and \<open>at\<close> on that index in the state it leaves throws
  \<open>std::out_of_range\<close>.
\<close>

theorem emplace_at_round_trip:
  assumes "wf w a"
  shows "(\<not> full w a \<longrightarrow>
            (\<exists>p a' i q. emplace w a (Some v) = (Inr (Some p), a') \<and> as_index a' p = Inr i \<and>
                        at w a' i = Inr q \<and> deref a' q = Inr v)) \<and>
         (\<forall>idx. idx < capacity a \<and> is_Value (storage a ! idx) \<longrightarrow>
            (\<exists>a'. erase w a idx = Inr a')) \<and>
         (\<forall>idx a'. erase w a idx = Inr a' \<longrightarrow> at w a' idx = Inl out_of_range)"
proof (intro conjI impI allI)
  assume nf: "\<not> full w a"
  from assms obtain c where c: "chain w (storage a) (first_free a) c" "free_chain w a = Some c"
    by (rule wf_chainE)
  from nf c(1) obtain x xs where cx: "c = x # xs" by (cases c) (auto simp: full_def)
  from emplace_wf_cases[OF assms c(2)[unfolded cx], of v] obtain nxt where
    n: "x < capacity a"
       "emplace w a (Some v) =
       (Inr (Some x), a\<lparr>storage := (storage a)[x := Value v], first_free := nxt,
                         size_m := size_m a + 1\<rparr>)"
    by blast
  define a' where "a' = a\<lparr>storage := (storage a)[x := Value v], first_free := nxt,
                         size_m := size_m a + 1\<rparr>"
  have w': "wf w a'" using wf_emplace[OF assms n(2)] by (simp add: a'_def)
  have x': "x < capacity a'" "storage a' ! x = Value v" using n(1) by (simp_all add: a'_def capacity_def)
  have "as_index a' x = Inr x" using x' by (simp add: as_index_def owns_def)
  moreover have "at w a' x = Inr x" using at_wf[OF w', of x] x' by simp
  moreover have "deref a' x = Inr v" using x' by (simp add: deref_def owns_def)
  ultimately show "\<exists>p a' i q. emplace w a (Some v) = (Inr (Some p), a') \<and> as_index a' p = Inr i \<and>
                        at w a' i = Inr q \<and> deref a' q = Inr v"
    using n(2) unfolding a'_def by blast
next
  fix idx
  assume "idx < capacity a \<and> is_Value (storage a ! idx)"
  then show "\<exists>a'. erase w a idx = Inr a'" using erase_wf(1)[OF assms, of idx] by simp
next
  fix idx a'
  assume e: "erase w a idx = Inr a'"
  have w': "wf w a'" and cap: "capacity a' = capacity a" using erase_wf(2)[OF assms e] by simp_all
  have idx: "idx < capacity a" using erase_wf(1)[OF assms, of idx] e by blast
  have "storage a' ! idx = Offset (first_free a)"
    using e idx by (auto simp: erase_def capacity_def split: sum.splits if_splits)
  then show "at w a' idx = Inl out_of_range" using at_wf[OF w', of idx] by simp
qed

theorem emplace_at_round_trip_witness:
  "wf 16 \<lparr>storage = [Value ''A'', Offset 3, Value ''C'', Offset 65535], first_free = 1, size_m = 2\<rparr> \<and>
   \<not> full 16 \<lparr>storage = [Value ''A'', Offset 3, Value ''C'', Offset 65535], first_free = 1, size_m = 2\<rparr> \<and>
   (\<exists>p a' i q. emplace 16 \<lparr>storage = [Value ''A'', Offset 3, Value ''C'', Offset 65535], first_free = 1, size_m = 2\<rparr>
                 (Some ''E'') = (Inr (Some p), a') \<and> as_index a' p = Inr i \<and>
               at 16 a' i = Inr q \<and> deref a' q = Inr ''E'') \<and>
   erase 16 \<lparr>storage = [Value ''A'', Offset 3, Value ''C'', Offset 65535], first_free = 1, size_m = 2\<rparr> 2 =
     Inr \<lparr>storage = [Value ''A'', Offset 3, Offset 1, Offset 65535], first_free = 2, size_m = 1\<rparr> \<and>
   at 16 \<lparr>storage = [Value ''A'', Offset 3, Offset 1, Offset 65535], first_free = 2, size_m = 1\<rparr> 2 =
     Inl out_of_range"
proof -
  have h: "wf 16 \<lparr>storage = [Value ''A'', Offset 3, Value ''C'', Offset 65535], first_free = 1, size_m = 2\<rparr>"
    by (simp add: arena_eval)
  have f: "\<not> full 16 \<lparr>storage = [Value ''A'', Offset 3, Value ''C'', Offset 65535], first_free = 1, size_m = 2\<rparr>"
    by (simp add: arena_eval)
  have e: "erase 16 \<lparr>storage = [Value ''A'', Offset 3, Value ''C'', Offset 65535], first_free = 1, size_m = 2\<rparr> 2 =
     Inr \<lparr>storage = [Value ''A'', Offset 3, Offset 1, Offset 65535], first_free = 2, size_m = 1\<rparr>"
    by (simp add: arena_eval)
  from emplace_at_round_trip[OF h, of "''E''"] f e h show ?thesis by blast
qed

subsection \<open>A constructor that throws\<close>

text \<open>
  Claim C8, as the code has it. When the constructor of \<open>T\<close> throws inside \<open>emplace\<close> on a
  state the class keeps that is not full, the exception leaves \<open>emplace\<close> after the head
  \<open>x\<close> of the free chain has been popped: \<open>size_\<close> and every other slot are as before and the
  rest of the chain is intact, but slot \<open>x\<close> is on no chain, so \<open>size()\<close> plus the length of
  the chain is \<open>capacity() - 1\<close> and the state is no longer one the class keeps. On a full
  arena no construction is attempted and the state is unchanged.
\<close>

theorem emplace_constructor_throws:
  assumes "wf w a"
  shows "(full w a \<longrightarrow> emplace w a None = (Inr None, a)) \<and>
         (\<forall>x xs. free_chain w a = Some (x # xs) \<longrightarrow>
            (\<exists>a'. emplace w a None = (Inl constructor_threw, a') \<and>
                  size_arena a' = size_arena a \<and> capacity a' = capacity a \<and>
                  (\<forall>i. i \<noteq> x \<longrightarrow> storage a' ! i = storage a ! i) \<and>
                  free_chain w a' = Some xs \<and> x \<notin> set xs \<and>
                  size_arena a' + length xs + 1 = capacity a' \<and> \<not> wf w a'))"
proof (intro conjI impI allI)
  assume "full w a"
  then show "emplace w a None = (Inr None, a)" by (simp add: full_def emplace_def)
next
  fix x xs
  assume fc: "free_chain w a = Some (x # xs)"
  from assms obtain c where c: "size_m a + length c = capacity a" "free_chain w a = Some c"
    by (rule wf_chainE)
  from emplace_wf_cases[OF assms fc, of undefined] obtain nxt where
    n: "x \<notin> set xs" "chain w (storage a) nxt xs"
       "emplace w a None = (Inl constructor_threw, a\<lparr>first_free := nxt\<rparr>)"
    by blast
  define a' where "a' = a\<lparr>first_free := nxt\<rparr>"
  have cx: "c = x # xs" using c(2) fc by simp
  have len: "length xs \<le> capacity a'" using c(1) cx by (simp add: a'_def capacity_def)
  have fc': "free_chain w a' = Some xs"
    using free_chain_eq[of w a' xs] n(2) len by (simp add: a'_def)
  have sz: "size_arena a' + length xs + 1 = capacity a'"
    using c(1) cx by (simp add: a'_def capacity_def size_arena_def)
  have "\<not> wf w a'"
  proof
    assume "wf w a'"
    then obtain c' where "size_m a' + length c' = capacity a'" "free_chain w a' = Some c'"
      by (rule wf_chainE)
    then show False using fc' sz by (simp add: size_arena_def)
  qed
  then show "\<exists>a'. emplace w a None = (Inl constructor_threw, a') \<and>
                  size_arena a' = size_arena a \<and> capacity a' = capacity a \<and>
                  (\<forall>i. i \<noteq> x \<longrightarrow> storage a' ! i = storage a ! i) \<and>
                  free_chain w a' = Some xs \<and> x \<notin> set xs \<and>
                  size_arena a' + length xs + 1 = capacity a' \<and> \<not> wf w a'"
    using n(1,3) fc' sz unfolding a'_def by (auto simp: size_arena_def capacity_def)
qed

theorem emplace_constructor_throws_witness:
  "wf 16 (\<lparr>storage = [Offset 1, Offset 65535], first_free = 0, size_m = 0\<rparr> :: string inplace_free_list) \<and>
   free_chain 16 (\<lparr>storage = [Offset 1, Offset 65535], first_free = 0, size_m = 0\<rparr> :: string inplace_free_list)
      = Some [0, 1] \<and>
   (\<exists>a' :: string inplace_free_list.
       emplace 16 \<lparr>storage = [Offset 1, Offset 65535], first_free = 0, size_m = 0\<rparr> None
         = (Inl constructor_threw, a') \<and>
       size_arena a' = 0 \<and> free_chain 16 a' = Some [1] \<and> \<not> wf 16 a')"
proof -
  have h: "wf 16 (\<lparr>storage = [Offset 1, Offset 65535], first_free = 0, size_m = 0\<rparr> :: string inplace_free_list)"
    by (simp add: arena_eval)
  have c: "free_chain 16 (\<lparr>storage = [Offset 1, Offset 65535], first_free = 0, size_m = 0\<rparr> :: string inplace_free_list)
      = Some [0, 1]"
    by (simp add: arena_eval)
  from emplace_constructor_throws[OF h] c h show ?thesis
    by (auto simp: size_arena_def)
qed

text \<open>
  Claim C8 as stated fails: on the fresh arena of capacity 2 a throwing constructor leaves
  \<open>first_free_\<close> at 1, so the state has changed, slot 0 is no longer on the free chain, and
  \<open>size_\<close> plus the length of the chain is 1, not 2.
\<close>

theorem emplace_constructor_throws_changes_state:
  "initialize_empty 16 2 =
     Inr (\<lparr>storage = [Offset 1, Offset 65535], first_free = 0, size_m = 0\<rparr> :: string inplace_free_list) \<and>
   emplace 16 (\<lparr>storage = [Offset 1, Offset 65535], first_free = 0, size_m = 0\<rparr> :: string inplace_free_list) None =
     (Inl constructor_threw, \<lparr>storage = [Offset 1, Offset 65535], first_free = 1, size_m = 0\<rparr>) \<and>
   free_chain 16 (\<lparr>storage = [Offset 1, Offset 65535], first_free = 1, size_m = 0\<rparr> :: string inplace_free_list)
     = Some [1] \<and>
   free_mask 16 (\<lparr>storage = [Offset 1, Offset 65535], first_free = 1, size_m = 0\<rparr> :: string inplace_free_list)
     = Inr [False, True] \<and>
   \<not> wf 16 (\<lparr>storage = [Offset 1, Offset 65535], first_free = 1, size_m = 0\<rparr> :: string inplace_free_list)"
  by (simp add: arena_eval upt_rec)

subsection \<open>The moved-from arena\<close>

lemma free_mask_wf_ok:
  assumes "wf w a"
  shows "\<exists>m. free_mask w a = Inr m \<and> length m = capacity a \<and>
             (\<forall>k<capacity a. m ! k = (\<not> is_Value (storage a ! k)))"
proof -
  from assms obtain c where c: "chain w (storage a) (first_free a) c"
    "\<forall>i<capacity a. (i \<in> set c) = (\<not> is_Value (storage a ! i))" "length c \<le> capacity a"
    by (rule wf_chainE)
  from free_mask_chain[OF c(1,3)] c(2) show ?thesis by auto
qed

lemma initialize_empty_state:
  assumes w: "w \<in> {8, 16}" and C0: "0 < C" and C: "C < offset_type_npos w"
  shows "\<exists>a :: 'a inplace_free_list. initialize_empty w C = Inr a \<and> capacity a = C \<and>
           size_arena a = 0 \<and> empty a \<and> free_mask w a = Inr (replicate C True) \<and>
           free_chain w a = Some [0..<C] \<and> wf w a"
proof -
  from initialize_empty_wf[OF assms] obtain a :: "'a inplace_free_list" where
    a: "initialize_empty w C = Inr a" "wf w a" "capacity a = C" "size_m a = 0"
       "chain w (storage a) (first_free a) [0..<C]"
    by blast
  have fc: "free_chain w a = Some [0..<C]" using free_chain_eq[OF a(5)] a(3) by simp
  from free_mask_chain[OF a(5)] a(3) obtain m where
    m: "free_mask w a = Inr m" "length m = C" "\<forall>k<C. m ! k = (k \<in> set [0..<C])" by auto
  have "m = replicate C True" using m(2,3) by (intro nth_equalityI) auto
  then show ?thesis using a m(1) fc by (auto simp: size_arena_def empty_def)
qed

text \<open>
  Claim C10. After move construction from, or move assignment of, an arena in a state the
  class keeps (the target of the assignment being in such a state too), the source is the
  freshly constructed arena: \<open>size()\<close> is 0, \<open>empty()\<close> holds, every bit of \<open>free_mask()\<close> is
  set, and the free chain visits all slots in ascending order.
\<close>

theorem moved_from_arena_is_empty:
  assumes "wf w other" "wf w this"
  shows "(\<exists>t other'. move_constructor trivially_copy_constructible w other = Inr (t, other') \<and>
            size_arena other' = 0 \<and> empty other' \<and> capacity other' = capacity other \<and>
            free_mask w other' = Inr (replicate (capacity other) True) \<and>
            free_chain w other' = Some [0..<capacity other] \<and>
            storage t = storage other) \<and>
         (\<exists>t other'. move_assignment trivially_copy_constructible w this other = Inr (t, other') \<and>
            size_arena other' = 0 \<and> empty other' \<and> capacity other' = capacity other \<and>
            free_mask w other' = Inr (replicate (capacity other) True) \<and>
            free_chain w other' = Some [0..<capacity other] \<and>
            storage t = storage other)"
proof -
  from assms(1) have h: "w \<in> {8, 16}" "0 < capacity other" "capacity other < offset_type_npos w"
    unfolding wf_iff by simp_all
  from initialize_empty_state[OF h] obtain o' :: "'a inplace_free_list" where
    o': "initialize_empty w (capacity other) = Inr o'" "capacity o' = capacity other"
        "size_arena o' = 0" "empty o'" "free_mask w o' = Inr (replicate (capacity other) True)"
        "free_chain w o' = Some [0..<capacity other]"
    by blast
  from free_mask_wf_ok[OF assms(1)] obtain m where m: "free_mask w other = Inr m" by blast
  from free_mask_wf_ok[OF assms(2)] obtain m2 where m2: "free_mask w this = Inr m2" by blast
  have mc: "move_constructor trivially_copy_constructible w other =
      Inr (\<lparr>storage = storage other, first_free = first_free other, size_m = size_m other\<rparr>, o')"
    using m o'(1) by (simp add: move_constructor_def initialize_move_def)
  have ma: "move_assignment trivially_copy_constructible w this other =
      Inr (\<lparr>storage = storage other, first_free = first_free other, size_m = size_m other\<rparr>, o')"
    using m2 mc by (simp add: move_assignment_def destroy_all_def)
  show ?thesis using mc ma o' by simp
qed

theorem moved_from_arena_is_empty_witness:
  "wf 16 \<lparr>storage = [Value ''A'', Offset 3, Value ''C'', Offset 65535], first_free = 1, size_m = 2\<rparr> \<and>
   wf 16 \<lparr>storage = [Offset 65535, Value ''B'', Value ''D'', Value ''E''], first_free = 0, size_m = 3\<rparr> \<and>
   (\<exists>t other'.
      move_assignment False 16
        \<lparr>storage = [Offset 65535, Value ''B'', Value ''D'', Value ''E''], first_free = 0, size_m = 3\<rparr>
        \<lparr>storage = [Value ''A'', Offset 3, Value ''C'', Offset 65535], first_free = 1, size_m = 2\<rparr>
        = Inr (t, other') \<and>
      size_arena other' = 0 \<and> empty other' \<and>
      free_mask 16 other' = Inr [True, True, True, True] \<and>
      free_chain 16 other' = Some [0, 1, 2, 3])"
proof -
  have h1: "wf 16 \<lparr>storage = [Value ''A'', Offset 3, Value ''C'', Offset 65535], first_free = 1, size_m = 2\<rparr>"
    by (simp add: arena_eval)
  have h2: "wf 16 \<lparr>storage = [Offset 65535, Value ''B'', Value ''D'', Value ''E''], first_free = 0, size_m = 3\<rparr>"
    by (simp add: arena_eval)
  have r: "replicate (4::nat) True = [True, True, True, True]"
    by (simp add: numeral_eq_Suc)
  have u: "[0..<4::nat] = [0, 1, 2, 3]"
    by (simp add: upt_rec)
  from moved_from_arena_is_empty[OF h1 h2, of False] h1 h2 show ?thesis
    by (auto simp: capacity_def r u)
qed

subsection \<open>The compaction loop\<close>

lemma map_Value_live_values: "map Value (live_values st) = filter is_Value st"
  by (induction st rule: live_values.induct) auto

lemma mset_live_values:
  assumes "length fmask = length st" "\<forall>i<length st. fmask ! i = (\<not> is_Value (st ! i))"
  shows "image_mset Value (mset (live_values st)) = occupied_slots fmask st"
proof -
  have "image_mset Value (mset (live_values st)) = mset (filter is_Value st)"
    using map_Value_live_values[of st] by (metis mset_map)
  also have "\<dots> = filter_mset is_Value (mset (map (nth st) [0..<length st]))"
    by (simp add: map_nth)
  also have "\<dots> = image_mset (nth st) (mset_set {i \<in> {0..<length st}. is_Value (st ! i)})"
    by (simp add: filter_mset_image_mset del: map_nth)
  also have "{i \<in> {0..<length st}. is_Value (st ! i)} = {i. i < length st \<and> \<not> fmask ! i}"
    using assms(2) by auto
  finally show ?thesis by (simp add: occupied_slots_def)
qed

lemma image_mset_Value_cancel:
  "image_mset Value A = image_mset Value B \<Longrightarrow> A = B"
  by (rule multiset.inj_map_strong[of A B Value Value]) auto

lemma occupied_slots_update_free:
  assumes "fmask ! r" "length fmask = length st"
  shows "occupied_slots fmask (st[r := s]) = occupied_slots fmask st"
proof -
  have "image_mset (nth (st[r := s])) (mset_set {i. i < length st \<and> \<not> fmask ! i}) =
        image_mset (nth st) (mset_set {i. i < length st \<and> \<not> fmask ! i})"
  proof (intro image_mset_cong)
    fix x assume "x \<in># mset_set {i. i < length st \<and> \<not> fmask ! i}"
    then have "r \<noteq> x" using assms(1) by auto
    then show "st[r := s] ! x = st ! x" by (rule nth_list_update_neq)
  qed
  then show ?thesis by (simp add: occupied_slots_def)
qed

lemma occupied_slots_move:
  assumes "l < r" "r < length st" "length fmask = length st" "fmask ! l" "\<not> fmask ! r"
  shows "occupied_slots (fmask[l := False, r := True]) (st[l := st ! r, r := s]) =
         occupied_slots fmask st"
proof -
  let ?S = "{i. i < length st \<and> \<not> fmask ! i}"
  let ?st' = "st[l := st ! r, r := s]"
  have fin: "finite ?S" by simp
  have S': "{i. i < length ?st' \<and> \<not> (fmask[l := False, r := True]) ! i} = insert l (?S - {r})"
    using assms by (auto simp: nth_list_update)
  have lS: "l \<notin> ?S - {r}" using assms by auto
  have rS: "r \<in> ?S" using assms by auto
  have "occupied_slots (fmask[l := False, r := True]) ?st' =
        image_mset (nth ?st') (add_mset l (mset_set (?S - {r})))"
    unfolding occupied_slots_def S' using lS fin by (simp add: mset_set.insert)
  also have "\<dots> = add_mset (st ! r) (image_mset (nth ?st') (mset_set (?S - {r})))"
    using assms by (simp add: nth_list_update)
  also have "image_mset (nth ?st') (mset_set (?S - {r})) = image_mset (nth st) (mset_set (?S - {r}))"
    using assms by (intro image_mset_cong) (auto simp: nth_list_update)
  also have "add_mset (st ! r) (image_mset (nth st) (mset_set (?S - {r}))) =
             image_mset (nth st) (add_mset r (mset_set (?S - {r})))"
    by simp
  also have "add_mset r (mset_set (?S - {r})) = mset_set ?S"
    using mset_set.remove[OF fin rS] by simp
  finally show ?thesis by (simp add: occupied_slots_def)
qed

lemma size_occupied_slots:
  "size (occupied_slots fmask st) = card {i. i < length st \<and> \<not> fmask ! i}"
  by (simp add: occupied_slots_def)

lemma optimize_invI:
  assumes "Suc (length st0) < 2 ^ w" "length fmask0 = length st0"
    "length fmask = length st0" "length st = length st0"
    "left \<le> right \<and> right < length st0"
    "\<forall>i<left. \<not> fmask ! i"
    "\<forall>i. right < i \<and> i < length st0 \<longrightarrow> fmask ! i \<and> st ! i = Offset (Suc i)"
    "fmask ! right \<or> (fmask ! left \<and> left < right) \<or>
      (Suc right = length st0 \<and> cbs = [] \<and> ff = ff0 \<and> fmask = fmask0 \<and> st = st0)"
    "distinct (map fst cbs) \<and> distinct (map snd cbs)"
    "\<forall>(f, t) \<in> set cbs. right \<le> f \<and> f < length st0 \<and> \<not> fmask0 ! f \<and> t \<le> left \<and> t < f \<and>
         fmask0 ! t \<and> \<not> fmask ! t \<and> fmask ! f \<and> st ! t = st0 ! f"
    "\<forall>i<length st0. \<not> fmask0 ! i \<longrightarrow> i \<notin> fst ` set cbs \<longrightarrow> \<not> fmask ! i \<and> st ! i = st0 ! i"
    "\<forall>i<length st0. \<not> fmask ! i \<longrightarrow> i \<in> snd ` set cbs \<or> (\<not> fmask0 ! i \<and> i \<notin> fst ` set cbs)"
    "occupied_slots fmask st = occupied_slots fmask0 st0"
  shows "optimize_inv w fmask0 st0 ff0 fmask st ff cbs left right"
  unfolding optimize_inv_def using assms by (elim conjE, intro conjI) assumption+

lemma optimize_inv_left:
  assumes "optimize_inv w fmask0 st0 ff0 fmask st ff cbs left right" "left < right" "\<not> fmask ! left"
  shows "optimize_inv w fmask0 st0 ff0 fmask st ff cbs (left + 1) right"
  using assms unfolding optimize_inv_def
  by (auto simp: less_Suc_eq)

lemma optimize_inv_right:
  assumes "optimize_inv w fmask0 st0 ff0 fmask st ff cbs left right" "left < right"
    "fmask ! left" "fmask ! right"
  shows "optimize_inv w fmask0 st0 ff0 fmask
           (st[right := Offset (to_offset_type w (right + 1))]) ff cbs left (right - 1)"
proof -
  note I = assms(1)[unfolded optimize_inv_def]
  have r: "right < length st0" "length st = length st0" "length fmask = length st0" using I by simp_all
  have off: "to_offset_type w (right + 1) = Suc right"
    using I by (simp add: to_offset_type_def)
  have occ: "occupied_slots fmask (st[right := Offset (Suc right)]) = occupied_slots fmask0 st0"
    using occupied_slots_update_free[OF assms(4), of st] I by simp
  have c5: "fmask ! (right - 1) \<or> (fmask ! left \<and> left < right - 1)"
    using assms(2,3) by (cases "left = right - 1") auto
  have c4: "\<forall>i. right - 1 < i \<and> i < length st0 \<longrightarrow>
              fmask ! i \<and> st[right := Offset (Suc right)] ! i = Offset (Suc i)"
  proof (intro allI impI)
    fix i assume i: "right - 1 < i \<and> i < length st0"
    show "fmask ! i \<and> st[right := Offset (Suc right)] ! i = Offset (Suc i)"
    proof (cases "i = right")
      case True
      then show ?thesis using assms(4) r by simp
    next
      case False
      then have "right < i" using i by arith
      then show ?thesis using I i False by simp
    qed
  qed
  have c7: "\<forall>(f, t) \<in> set cbs. right - 1 \<le> f \<and> f < length st0 \<and> \<not> fmask0 ! f \<and> t \<le> left \<and> t < f \<and>
         fmask0 ! t \<and> \<not> fmask ! t \<and> fmask ! f \<and> st[right := Offset (Suc right)] ! t = st0 ! f"
    using I assms(2) by (auto simp: nth_list_update)
  have c8: "\<forall>i<length st0. \<not> fmask0 ! i \<longrightarrow> i \<notin> fst ` set cbs \<longrightarrow>
              \<not> fmask ! i \<and> st[right := Offset (Suc right)] ! i = st0 ! i"
    using I assms(4) by (auto simp: nth_list_update)
  have c2: "left \<le> right - 1 \<and> right - 1 < length st0" using assms(2) r(1) by arith
  have c5': "fmask ! (right - 1) \<or> (fmask ! left \<and> left < right - 1) \<or>
      (Suc (right - 1) = length st0 \<and> cbs = [] \<and> ff = ff0 \<and> fmask = fmask0 \<and>
       st[right := Offset (Suc right)] = st0)"
    using c5 by blast
  have c3: "\<forall>i<left. \<not> fmask ! i" and c6: "distinct (map fst cbs) \<and> distinct (map snd cbs)"
    and c9: "\<forall>i<length st0. \<not> fmask ! i \<longrightarrow> i \<in> snd ` set cbs \<or> (\<not> fmask0 ! i \<and> i \<notin> fst ` set cbs)"
    and c0: "Suc (length st0) < 2 ^ w" "length fmask0 = length st0"
    using I by blast+
  have c1: "length (st[right := Offset (Suc right)]) = length st0" using r by simp
  show ?thesis
    unfolding off
    by (rule optimize_invI[OF c0 r(3) c1 c2 c3 c4 c5' c6 c7 c8 c9 occ])
qed


lemma optimize_inv_move:
  assumes "optimize_inv w fmask0 st0 ff0 fmask st ff cbs left right" "left < right"
    "fmask ! left" "\<not> fmask ! right"
  shows "optimize_inv w fmask0 st0 ff0 (fmask[left := False, right := True])
           (st[left := st ! right, right := Offset (to_offset_type w (right + 1))])
           right (cbs @ [(right, left)]) left right"
proof -
  note I = assms(1)[unfolded optimize_inv_def]
  let ?fm = "fmask[left := False, right := True]"
  let ?st = "st[left := st ! right, right := Offset (Suc right)]"
  have r: "right < length st0" "left < length st0" "length st = length st0"
    "length fmask = length st0" "left \<noteq> right"
    using I assms(2) by simp_all
  have off: "to_offset_type w (right + 1) = Suc right"
    using I by (simp add: to_offset_type_def)
  have cb: "\<And>f t. (f, t) \<in> set cbs \<Longrightarrow> right \<le> f \<and> f < length st0 \<and> \<not> fmask0 ! f \<and> t \<le> left \<and> t < f \<and>
         fmask0 ! t \<and> \<not> fmask ! t \<and> fmask ! f \<and> st ! t = st0 ! f"
    using I by blast
  have rf: "right \<notin> fst ` set cbs" using cb assms(4) by force
  have lt: "left \<notin> snd ` set cbs" using cb assms(3) by force
  have lf: "left \<notin> fst ` set cbs" using cb assms(2) by force
  have rt: "right \<notin> snd ` set cbs" using cb assms(2) by force
  have r0: "\<not> fmask0 ! right \<and> st ! right = st0 ! right"
    using I assms(4) r(1) rf rt by blast
  have l0: "fmask0 ! left"
    using I assms(3) r(2) lf by blast
  have fm: "\<And>i. i < length st0 \<Longrightarrow> ?fm ! i = (if i = right then True else if i = left then False else fmask ! i)"
    using r by (simp add: nth_list_update)
  have stn: "\<And>i. i < length st0 \<Longrightarrow> ?st ! i = (if i = right then Offset (Suc right) else if i = left then st ! right else st ! i)"
    using r by (simp add: nth_list_update)
  have occ: "occupied_slots ?fm ?st = occupied_slots fmask0 st0"
    using occupied_slots_move[OF assms(2), of st fmask "Offset (Suc right)"] I assms(3,4) by simp
  have c3: "\<forall>i<left. \<not> ?fm ! i" using I assms(2) by (simp add: nth_list_update)
  have c4: "\<forall>i. right < i \<and> i < length st0 \<longrightarrow> ?fm ! i \<and> ?st ! i = Offset (Suc i)"
    using I assms(2) by (simp add: nth_list_update)
  have c5: "?fm ! right" using r by simp
  have c6: "distinct (map fst (cbs @ [(right, left)])) \<and> distinct (map snd (cbs @ [(right, left)]))"
    using I rf lt by simp
  have c7: "\<forall>(f, t) \<in> set (cbs @ [(right, left)]). right \<le> f \<and> f < length st0 \<and> \<not> fmask0 ! f \<and>
         t \<le> left \<and> t < f \<and> fmask0 ! t \<and> \<not> ?fm ! t \<and> ?fm ! f \<and> ?st ! t = st0 ! f"
  proof -
    have "right \<le> f \<and> f < length st0 \<and> \<not> fmask0 ! f \<and>
         t \<le> left \<and> t < f \<and> fmask0 ! t \<and> \<not> ?fm ! t \<and> ?fm ! f \<and> ?st ! t = st0 ! f"
      if "(f, t) \<in> set (cbs @ [(right, left)])" for f t
    proof (cases "(f, t) = (right, left)")
      case True
      then show ?thesis using r r0 l0 assms(2) fm[of left] fm[of right] stn[of left] by simp
    next
      case False
      then have m: "(f, t) \<in> set cbs" using that by auto
      note c = cb[OF m]
      have tl: "t \<noteq> left" using c assms(3) by auto
      have tr: "t \<noteq> right" using c assms(2) by auto
      have fl: "f \<noteq> left" using c assms(2) by auto
      have tn: "t < length st0" using c by simp
      show ?thesis using c tl tr fl fm[of t] fm[of f] stn[of t] tn by simp
    qed
    then show ?thesis by blast
  qed
  have c8: "\<forall>i<length st0. \<not> fmask0 ! i \<longrightarrow> i \<notin> fst ` set (cbs @ [(right, left)]) \<longrightarrow>
              \<not> ?fm ! i \<and> ?st ! i = st0 ! i"
  proof (intro allI impI)
    fix i assume i: "i < length st0" "\<not> fmask0 ! i" "i \<notin> fst ` set (cbs @ [(right, left)])"
    then have ir: "i \<noteq> right" and "i \<notin> fst ` set cbs" by auto
    then have o: "\<not> fmask ! i \<and> st ! i = st0 ! i" using I i(1,2) by blast
    then have "i \<noteq> left" using assms(3) by auto
    then show "\<not> ?fm ! i \<and> ?st ! i = st0 ! i" using o ir fm[OF i(1)] stn[OF i(1)] by simp
  qed
  have c9: "\<forall>i<length st0. \<not> ?fm ! i \<longrightarrow>
              i \<in> snd ` set (cbs @ [(right, left)]) \<or> (\<not> fmask0 ! i \<and> i \<notin> fst ` set (cbs @ [(right, left)]))"
  proof (intro allI impI)
    fix i assume i: "i < length st0" "\<not> ?fm ! i"
    show "i \<in> snd ` set (cbs @ [(right, left)]) \<or> (\<not> fmask0 ! i \<and> i \<notin> fst ` set (cbs @ [(right, left)]))"
    proof (cases "i = left")
      case True
      then show ?thesis by simp
    next
      case False
      then have ir: "i \<noteq> right" and "\<not> fmask ! i" using i fm[OF i(1)] by (auto split: if_splits)
      then have "i \<in> snd ` set cbs \<or> (\<not> fmask0 ! i \<and> i \<notin> fst ` set cbs)" using I i(1) by blast
      then show ?thesis using ir by auto
    qed
  qed
  have c2: "left \<le> right \<and> right < length st0" using assms(2) r(1) by simp
  have c5': "?fm ! right \<or> (?fm ! left \<and> left < right) \<or>
      (Suc right = length st0 \<and> cbs @ [(right, left)] = [] \<and> right = ff0 \<and> ?fm = fmask0 \<and> ?st = st0)"
    using c5 by blast
  have c0: "Suc (length st0) < 2 ^ w" "length fmask0 = length st0"
    using I by blast+
  have c1: "length ?fm = length st0" "length ?st = length st0" using r by simp_all
  show ?thesis
    unfolding off
    by (rule optimize_invI[OF c0 c1 c2 c3 c4 c5' c6 c7 c8 c9 occ])
qed

lemma optimize_at_loop_inv:
  assumes "optimize_inv w fmask0 st0 ff0 fmask st ff cbs left right"
  shows "\<exists>fmask' st' ff' cbs' r.
           optimize_at_loop w fmask st ff cbs left right = Inr (fmask', st', ff', cbs', r) \<and>
           optimize_inv w fmask0 st0 ff0 fmask' st' ff' cbs' r r"
  using assms
proof (induction w fmask st ff cbs left right rule: optimize_at_loop.induct)
  case (1 w fmask st ff cbs left right)
  note I = "1.prems"[unfolded optimize_inv_def]
  have len: "left < length fmask" "right < length fmask" using I by simp_all
  show ?case
  proof (cases "left < right")
    case False
    then have "left = right" using I by simp
    then show ?thesis using "1.prems" by (subst optimize_at_loop.simps) auto
  next
    case lr: True
    show ?thesis
    proof (cases "fmask ! left")
      case False
      from "1.IH"(3)[OF lr _ False optimize_inv_left[OF "1.prems" lr False]] len
      show ?thesis using lr False by (subst optimize_at_loop.simps) simp
    next
      case l: True
      show ?thesis
      proof (cases "fmask ! right")
        case True
        from "1.IH"(1)[OF lr _ l _ True optimize_inv_right[OF "1.prems" lr l True]] len
        show ?thesis using lr l True by (subst optimize_at_loop.simps) simp
      next
        case False
        from "1.IH"(2)[OF lr _ l _ False optimize_inv_move[OF "1.prems" lr l False]] len
        show ?thesis using lr l False by (subst optimize_at_loop.simps) simp
      qed
    qed
  qed
qed

lemma suffix_chain:
  assumes n: "n < offset_type_npos w" and len: "length st = n"
    and links: "\<forall>i. k0 \<le> i \<and> Suc i < n \<longrightarrow> st ! i = Offset (Suc i)"
    and last: "st ! (n - 1) = Offset (offset_type_npos w)"
  shows "k0 \<le> k \<Longrightarrow> k < n \<Longrightarrow> chain w st k [k..<n]"
proof (induction "n - k" arbitrary: k)
  case 0
  then show ?case by simp
next
  case (Suc d)
  have kn: "k \<noteq> offset_type_npos w" using Suc.prems n by simp
  have up: "[k..<n] = k # [Suc k..<n]" using Suc.prems by (simp add: upt_conv_Cons)
  show ?case
  proof (cases "Suc k = n")
    case True
    then have "st ! k = Offset (offset_type_npos w)" using last by auto
    then show ?thesis using True kn len Suc.prems up by simp
  next
    case False
    then have lt: "Suc k < n" using Suc.prems by simp
    then have "st ! k = Offset (Suc k)" using links Suc.prems by simp
    moreover have "chain w st (Suc k) [Suc k..<n]"
      using Suc.hyps(1)[of "Suc k"] Suc.hyps(2) Suc.prems lt by simp
    ultimately show ?thesis using kn len Suc.prems up by simp
  qed
qed

lemma card_occupied_prefix:
  assumes "r \<le> n" "\<forall>i<n. fmask ! i = (r \<le> i)"
  shows "card {i. i < n \<and> \<not> fmask ! i} = r"
proof -
  have "{i. i < n \<and> \<not> fmask ! i} = {..<r}" using assms by auto
  then show ?thesis by simp
qed

lemma card_occupied_chain:
  assumes "distinct c" "set c \<subseteq> {..<n}" "\<forall>i<n. fmask ! i = (i \<in> set c)"
  shows "card {i. i < n \<and> \<not> fmask ! i} = n - length c"
proof -
  have "{i. i < n \<and> \<not> fmask ! i} = {..<n} - set c" using assms(3) by auto
  then have "card {i. i < n \<and> \<not> fmask ! i} = card {..<n} - card (set c)"
    using assms(2) by (simp add: card_Diff_subset)
  then show ?thesis using assms(1) by (simp add: distinct_card)
qed

lemma optimize_at_wf:
  assumes "wf w a"
  shows "\<exists>cbs a'. optimize_at w a = Inr (cbs, a') \<and> wf w a' \<and> capacity a' = capacity a \<and>
    size_m a' = size_m a \<and>
    (\<forall>i<capacity a. is_Value (storage a' ! i) = (i < size_m a)) \<and>
    chain w (storage a') (first_free a') [size_m a..<capacity a] \<and>
    mset (live_values (storage a')) = mset (live_values (storage a)) \<and>
    distinct (map fst cbs) \<and> distinct (map snd cbs) \<and>
    (\<forall>(f, t) \<in> set cbs. t < size_m a \<and> size_m a \<le> f \<and> f < capacity a \<and>
        is_Value (storage a ! f) \<and> \<not> is_Value (storage a ! t) \<and>
        storage a' ! t = storage a ! f) \<and>
    (\<forall>i<capacity a. is_Value (storage a ! i) \<longrightarrow> i \<notin> fst ` set cbs \<longrightarrow>
        storage a' ! i = storage a ! i)"
proof -
  define n where "n = capacity a"
  define st0 where "st0 = storage a"
  define ff0 where "ff0 = first_free a"
  from assms obtain c where c: "w \<in> {8, 16}" "0 < n" "n < offset_type_npos w"
    "chain w st0 ff0 c" "distinct c"
    "\<forall>i<n. (i \<in> set c) = (\<not> is_Value (st0 ! i))"
    "size_m a + length c = n" "set c \<subseteq> {..<n}" "length c \<le> n"
    unfolding n_def st0_def ff0_def by (rule wf_chainE)
  have len0: "length st0 = n" by (simp add: n_def st0_def capacity_def)
  from free_mask_chain[of w a c] c(4,9) obtain fmask0 where
    fm: "free_mask w a = Inr fmask0" "length fmask0 = n" "\<forall>k<n. fmask0 ! k = (k \<in> set c)"
    unfolding n_def st0_def ff0_def by blast
  have fmv: "\<forall>k<n. fmask0 ! k = (\<not> is_Value (st0 ! k))" using fm(3) c(6) by simp
  have nb: "Suc n < 2 ^ w" "n < 2 ^ 64" using npos_bounds[OF c(1,3)] by simp_all
  have last_slot: "to_size_t (n + 2 ^ 64 - 1) = n - 1"
    using c(2) nb(2) by (simp add: to_size_t_def mod_if)
  have right0: "to_offset_type w (n - 1) = n - 1" using nb(1) by (simp add: to_offset_type_def)
  have init: "optimize_inv w fmask0 st0 ff0 fmask0 st0 ff0 [] 0 (n - 1)"
    using nb(1) fm(2) len0 c(2) by (intro optimize_invI) auto
  from optimize_at_loop_inv[OF init] obtain fmask1 st1 ff1 cbs r where
    loop: "optimize_at_loop w fmask0 st0 ff0 [] 0 (n - 1) = Inr (fmask1, st1, ff1, cbs, r)"
    and inv: "optimize_inv w fmask0 st0 ff0 fmask1 st1 ff1 cbs r r"
    by blast
  note J = inv[unfolded optimize_inv_def len0]
  have l1: "length fmask1 = n" "length st1 = n" "r < n" using J by simp_all
  have cbs_facts: "distinct (map fst cbs) \<and> distinct (map snd cbs)" using J by blast
  have cb: "\<And>f t. (f, t) \<in> set cbs \<Longrightarrow> r \<le> f \<and> f < n \<and> \<not> fmask0 ! f \<and> t \<le> r \<and> t < f \<and>
         fmask0 ! t \<and> \<not> fmask1 ! t \<and> st1 ! t = st0 ! f"
    using J by blast
  have keep: "\<forall>i<n. \<not> fmask0 ! i \<longrightarrow> i \<notin> fst ` set cbs \<longrightarrow> \<not> fmask1 ! i \<and> st1 ! i = st0 ! i"
    using J by blast
  have occv: "\<forall>i<n. \<not> fmask1 ! i \<longrightarrow> is_Value (st1 ! i)"
  proof (intro allI impI)
    fix i assume i: "i < n" "\<not> fmask1 ! i"
    then have "i \<in> snd ` set cbs \<or> (\<not> fmask0 ! i \<and> i \<notin> fst ` set cbs)" using J by blast
    then show "is_Value (st1 ! i)"
    proof
      assume "i \<in> snd ` set cbs"
      then obtain f where "(f, i) \<in> set cbs" by force
      then show ?thesis using cb[of f i] fmv by auto
    next
      assume "\<not> fmask0 ! i \<and> i \<notin> fst ` set cbs"
      then show ?thesis using keep i(1) fmv by auto
    qed
  qed
  have below: "\<forall>i<r. \<not> fmask1 ! i" using J by blast
  have above: "\<forall>i. r < i \<and> i < n \<longrightarrow> fmask1 ! i \<and> st1 ! i = Offset (Suc i)" using J by blast
  have occ_eq: "occupied_slots fmask1 st1 = occupied_slots fmask0 st0" using J by blast
  have card0: "card {i. i < n \<and> \<not> fmask0 ! i} = size_m a"
    using card_occupied_chain[OF c(5,8) fm(3)] c(7) by simp
  have card_eq: "card {i. i < n \<and> \<not> fmask1 ! i} = size_m a"
    using arg_cong[OF occ_eq, of size] card0 l1(2) len0 by (simp add: size_occupied_slots)
  have lv0: "image_mset Value (mset (live_values st0)) = occupied_slots fmask0 st0"
    using mset_live_values[of fmask0 st0] fm(2) len0 fmv by simp
  show ?thesis
  proof (cases "fmask1 ! r")
    case True
    define st3 where "st3 = st1[r := Offset (Suc r), n - 1 := Offset (offset_type_npos w)]"
    define a' where "a' = a\<lparr>storage := st3, first_free := r\<rparr>"
    have offr: "to_offset_type w (Suc r) = Suc r" using l1(3) nb(1) by (simp add: to_offset_type_def)
    have nl: "\<not> n \<le> n - Suc 0" using c(2) by simp
    have lastm: "fmask1 ! (n - 1)" using True above l1(3) by (cases "r = n - 1") auto
    have res: "optimize_at w a = Inr (cbs, a')"
      unfolding optimize_at_def fm(1) n_def[symmetric] st0_def[symmetric] ff0_def[symmetric]
        last_slot Let_def right0
      using loop l1 True lastm nl
      by (simp add: offr a'_def st3_def)
    have l3: "length st3 = n" using l1 by (simp add: st3_def)
    have fmr: "\<forall>i<n. fmask1 ! i = (r \<le> i)"
      using below above True by (metis linorder_neqE_nat not_le)
    have rsz: "r = size_m a" using card_occupied_prefix[of r n fmask1] fmr l1(3) card_eq by simp
    have st3_lo: "\<forall>i<r. st3 ! i = st1 ! i" using l1 by (simp add: st3_def nth_list_update)
    have st3_links: "\<forall>i. r \<le> i \<and> Suc i < n \<longrightarrow> st3 ! i = Offset (Suc i)"
      using above l1 by (auto simp: st3_def nth_list_update)
    have st3_last: "st3 ! (n - 1) = Offset (offset_type_npos w)"
      using l1 c(2) by (simp add: st3_def)
    have ch: "chain w st3 r [r..<n]"
      using suffix_chain[OF c(3) l3 st3_links st3_last, of r] l1(3) by simp
    have st3_hi: "\<forall>i. r \<le> i \<and> i < n \<longrightarrow> \<not> is_Value (st3 ! i)"
    proof (intro allI impI)
      fix i assume i: "r \<le> i \<and> i < n"
      show "\<not> is_Value (st3 ! i)"
      proof (cases "Suc i < n")
        case True
        then show ?thesis using st3_links i by simp
      next
        case False
        then have "i = n - 1" using i by arith
        then show ?thesis using st3_last by simp
      qed
    qed
    have vals: "\<forall>i<n. is_Value (st3 ! i) = (i < r)"
      using st3_lo st3_hi occv below by (metis not_le)
    have wf': "wf w a'"
      unfolding wf_iff
      using c(1,2,3) ch vals rsz c(7,9) l3 l1(3)
      by (auto simp: a'_def capacity_def n_def[symmetric] intro!: exI[of _ "[r..<n]"])
    have occ3: "occupied_slots fmask1 st3 = occupied_slots fmask1 st1"
      unfolding st3_def
      using occupied_slots_update_free[OF lastm, of "st1[r := Offset (Suc r)]"]
            occupied_slots_update_free[OF True, of st1] l1 by simp
    have fv3: "\<forall>i<length st3. fmask1 ! i = (\<not> is_Value (st3 ! i))"
      using vals fmr l3 by auto
    have "image_mset Value (mset (live_values st3)) = occupied_slots fmask1 st3"
      by (rule mset_live_values[OF _ fv3]) (simp add: l1(1) l3)
    then have lv: "mset (live_values st3) = mset (live_values st0)"
      using occ3 occ_eq lv0 image_mset_Value_cancel by metis
    have cbp: "\<forall>(f, t) \<in> set cbs. t < r \<and> r \<le> f \<and> f < n \<and> is_Value (st0 ! f) \<and>
        \<not> is_Value (st0 ! t) \<and> st3 ! t = st0 ! f"
    proof -
      have "t < r \<and> r \<le> f \<and> f < n \<and> is_Value (st0 ! f) \<and> \<not> is_Value (st0 ! t) \<and> st3 ! t = st0 ! f"
        if "(f, t) \<in> set cbs" for f t
      proof -
        note k = cb[OF that]
        have "t < r" using k True by (cases "t = r") auto
        then show ?thesis using k fmv st3_lo by auto
      qed
      then show ?thesis by blast
    qed
    have kp: "\<forall>i<n. is_Value (st0 ! i) \<longrightarrow> i \<notin> fst ` set cbs \<longrightarrow> st3 ! i = st0 ! i"
    proof (intro allI impI)
      fix i assume i: "i < n" "is_Value (st0 ! i)" "i \<notin> fst ` set cbs"
      then have k: "\<not> fmask1 ! i \<and> st1 ! i = st0 ! i" using keep fmv by simp
      then have "i < r" using fmr i(1) by simp
      then show "st3 ! i = st0 ! i" using k st3_lo by simp
    qed
    show ?thesis
      using res wf' lv cbs_facts cbp kp vals ch rsz l3
      by (intro exI[of _ cbs] exI[of _ a'])
         (simp add: a'_def capacity_def st0_def[symmetric] len0)
  next
    case False
    then have same: "Suc r = n" "cbs = []" "ff1 = ff0" "fmask1 = fmask0" "st1 = st0"
      using J by auto
    have res: "optimize_at w a = Inr ([], a)"
      unfolding optimize_at_def fm(1) n_def[symmetric] st0_def[symmetric] ff0_def[symmetric]
        last_slot Let_def right0
    proof -
      have rn: "r = n - Suc 0" using same(1) by arith
      have fl: "\<not> fmask0 ! (n - Suc 0)" using False same(4) rn by simp
      have nl: "\<not> n \<le> n - Suc 0" using c(2) by simp
      have lp: "optimize_at_loop w fmask0 st0 ff0 [] 0 (n - 1) = Inr (fmask0, st0, ff0, [], n - Suc 0)"
        using loop same rn by simp
      show "(case Inr fmask0 of Inl e \<Rightarrow> Inl e
     | Inr fmask \<Rightarrow>
         case optimize_at_loop w fmask st0 ff0 [] 0 (n - 1) of Inl e \<Rightarrow> Inl e
         | Inr (fmask1, st1, ff1, cbs, right) \<Rightarrow>
             if length fmask1 \<le> right then Inl out_of_range
             else if length fmask1 \<le> n - 1 then Inl out_of_range
                  else Inr (cbs,
                            a\<lparr>storage :=
                                if fmask1 ! (n - 1)
                                then (if fmask1 ! right
                                      then st1[right :=
         Offset (to_offset_type w (right + 1))]
                                      else st1)
                                     [n - 1 := Offset (offset_type_npos w)]
                                else if fmask1 ! right
                                     then st1[right :=
        Offset (to_offset_type w (right + 1))]
                                     else st1,
                                first_free :=
                                  if fmask1 ! right then right else ff1\<rparr>)) =
    Inr ([], a)"
        using fl nl fm(2) lp by (simp add: st0_def ff0_def)
    qed
    have allv: "\<forall>i<n. \<not> fmask0 ! i"
      using below False same by (metis less_Suc_eq)
    have "x \<notin> set c" for x
    proof
      assume x: "x \<in> set c"
      then have "x < n" using c(8) by auto
      then show False using allv fm(3) x by simp
    qed
    then have c0: "c = []" by (cases c) auto
    then have sz: "size_m a = n" using c(7) by simp
    have "chain w st0 ff0 [n..<n]" using c(4) c0 by simp
    moreover have "\<forall>i<n. is_Value (st0 ! i)" using allv fmv by simp
    ultimately show ?thesis
      using res assms sz
      by (intro exI[of _ "[]"] exI[of _ a])
         (simp add: capacity_def st0_def[symmetric] ff0_def[symmetric] len0)
  qed
qed

subsection \<open>Arena-level compaction\<close>

text \<open>
  Claim C1. On every state the class keeps, \<open>optimize_at\<close> returns, and in the state it
  leaves \<open>size()\<close> and \<open>capacity()\<close> are as before, the slots that hold a value are exactly
  the slots \<open>0, ..., size() - 1\<close> (by the slots' content and by \<open>free_mask\<close>), the free
  chain is the remaining slots \<open>size(), ..., Capacity - 1\<close> in ascending order, and the
  multiset of the values held is the one before the call.
\<close>

theorem optimize_at_compacts:
  assumes "wf w a"
  shows "\<exists>cbs a'. optimize_at w a = Inr (cbs, a') \<and> wf w a' \<and>
           size_arena a' = size_arena a \<and> capacity a' = capacity a \<and>
           (\<forall>i<capacity a. is_Value (storage a' ! i) = (i < size_arena a)) \<and>
           (\<exists>m. free_mask w a' = Inr m \<and> length m = capacity a \<and>
                (\<forall>i<capacity a. m ! i = (size_arena a \<le> i))) \<and>
           free_chain w a' = Some [size_arena a..<capacity a] \<and>
           mset (live_values (storage a')) = mset (live_values (storage a))"
proof -
  from optimize_at_wf[OF assms] obtain cbs a' where
    r: "optimize_at w a = Inr (cbs, a')" "wf w a'" "capacity a' = capacity a"
       "size_m a' = size_m a"
       "\<forall>i<capacity a. is_Value (storage a' ! i) = (i < size_m a)"
       "chain w (storage a') (first_free a') [size_m a..<capacity a]"
       "mset (live_values (storage a')) = mset (live_values (storage a))"
    by blast
  have fc: "free_chain w a' = Some [size_m a..<capacity a]"
    using free_chain_eq[OF r(6)] r(3) by simp
  from free_mask_wf_ok[OF r(2)] obtain m where
    m: "free_mask w a' = Inr m" "length m = capacity a'"
       "\<forall>k<capacity a'. m ! k = (\<not> is_Value (storage a' ! k))"
    by blast
  have "\<forall>i<capacity a. m ! i = (size_m a \<le> i)" using m(3) r(3,5) by auto
  then show ?thesis using r fc m(1,2) by (auto simp: size_arena_def)
qed

theorem optimize_at_compacts_witness:
  "wf 16 \<lparr>storage = [Offset 65535, Value ''B'', Offset 0, Value ''D''], first_free = 2, size_m = 2\<rparr> \<and>
   (\<exists>cbs a'. optimize_at 16
        \<lparr>storage = [Offset 65535, Value ''B'', Offset 0, Value ''D''], first_free = 2, size_m = 2\<rparr>
        = Inr (cbs, a') \<and>
      size_arena a' = 2 \<and> is_Value (storage a' ! 0) \<and> is_Value (storage a' ! 1) \<and>
      \<not> is_Value (storage a' ! 2) \<and> \<not> is_Value (storage a' ! 3) \<and>
      free_chain 16 a' = Some [2, 3] \<and>
      mset (live_values (storage a')) = {#''B'', ''D''#})"
proof -
  have h: "wf 16 \<lparr>storage = [Offset 65535, Value ''B'', Offset 0, Value ''D''], first_free = 2, size_m = 2\<rparr>"
    by (simp add: arena_eval)
  have u: "[2..<4::nat] = [2, 3]" by (simp add: upt_rec)
  from optimize_at_compacts[OF h] show ?thesis
    using h by (auto simp: capacity_def size_arena_def u)
qed

text \<open>
  Claim C2. On every state the class keeps, \<open>optimize_at\<close> returns, and of the calls
  \<open>(from, to)\<close> of the callback it makes: no slot is \<open>from\<close> twice and no slot is \<open>to\<close>
  twice; \<open>from\<close> held a value before the call and is free after it, \<open>to\<close> was free before
  the call, differs from \<open>from\<close>, and after the call holds the value \<open>from\<close> held. Every
  slot that held a value and is not the \<open>from\<close> of a call holds the same value after the
  call.
\<close>

theorem optimize_at_callbacks:
  assumes "wf w a"
  shows "\<exists>cbs a'. optimize_at w a = Inr (cbs, a') \<and>
           distinct (map fst cbs) \<and> distinct (map snd cbs) \<and>
           (\<forall>(f, t) \<in> set cbs.
              t < f \<and> f < capacity a \<and>
              is_Value (storage a ! f) \<and> \<not> is_Value (storage a ! t) \<and>
              storage a' ! t = storage a ! f \<and> \<not> is_Value (storage a' ! f)) \<and>
           (\<forall>i<capacity a. is_Value (storage a ! i) \<longrightarrow> i \<notin> fst ` set cbs \<longrightarrow>
              storage a' ! i = storage a ! i)"
proof -
  from optimize_at_wf[OF assms] obtain cbs a' where
    r: "optimize_at w a = Inr (cbs, a')"
       "\<forall>i<capacity a. is_Value (storage a' ! i) = (i < size_m a)"
       "distinct (map fst cbs)" "distinct (map snd cbs)"
       "\<forall>(f, t) \<in> set cbs. t < size_m a \<and> size_m a \<le> f \<and> f < capacity a \<and>
          is_Value (storage a ! f) \<and> \<not> is_Value (storage a ! t) \<and>
          storage a' ! t = storage a ! f"
       "\<forall>i<capacity a. is_Value (storage a ! i) \<longrightarrow> i \<notin> fst ` set cbs \<longrightarrow>
          storage a' ! i = storage a ! i"
    by blast
  have "\<forall>(f, t) \<in> set cbs.
              t < f \<and> f < capacity a \<and>
              is_Value (storage a ! f) \<and> \<not> is_Value (storage a ! t) \<and>
              storage a' ! t = storage a ! f \<and> \<not> is_Value (storage a' ! f)"
    using r(2,5) by fastforce
  then show ?thesis using r(1,3,4,6) by blast
qed

theorem optimize_at_callbacks_witness:
  "wf 16 \<lparr>storage = [Offset 65535, Value ''B'', Offset 0, Value ''D''], first_free = 2, size_m = 2\<rparr> \<and>
   optimize_at 16
        \<lparr>storage = [Offset 65535, Value ''B'', Offset 0, Value ''D''], first_free = 2, size_m = 2\<rparr>
     = Inr ([(3, 0)],
            \<lparr>storage = [Value ''D'', Value ''B'', Offset 3, Offset 65535], first_free = 2, size_m = 2\<rparr>) \<and>
   (\<exists>cbs a'. optimize_at 16
        \<lparr>storage = [Offset 65535, Value ''B'', Offset 0, Value ''D''], first_free = 2, size_m = 2\<rparr>
        = Inr (cbs, a') \<and>
      distinct (map fst cbs) \<and>
      (\<forall>(f, t) \<in> set cbs. t < f \<and> \<not> is_Value (storage a' ! f)) \<and>
      (1 \<notin> fst ` set cbs \<longrightarrow> storage a' ! 1 = Value ''B''))"
proof -
  have h: "wf 16 \<lparr>storage = [Offset 65535, Value ''B'', Offset 0, Value ''D''], first_free = 2, size_m = 2\<rparr>"
    by (simp add: arena_eval)
  have e: "optimize_at 16
        \<lparr>storage = [Offset 65535, Value ''B'', Offset 0, Value ''D''], first_free = 2, size_m = 2\<rparr>
     = Inr ([(3, 0)],
            \<lparr>storage = [Value ''D'', Value ''B'', Offset 3, Offset 65535], first_free = 2, size_m = 2\<rparr>)"
    by (simp add: arena_eval optimize_at_def optimize_at_loop.simps)
  from optimize_at_callbacks[OF h] obtain cbs a' where
    r: "optimize_at 16
        \<lparr>storage = [Offset 65535, Value ''B'', Offset 0, Value ''D''], first_free = 2, size_m = 2\<rparr>
        = Inr (cbs, a')"
       "distinct (map fst cbs)"
       "\<forall>(f, t) \<in> set cbs. t < f \<and> \<not> is_Value (storage a' ! f)"
       "1 \<notin> fst ` set cbs \<longrightarrow> storage a' ! 1 = Value ''B''"
    by (fastforce simp: capacity_def)
  then show ?thesis using h e by blast
qed

end
